theory Spec2Isabelle
  imports Main
begin

section \<open>Python string operations used by \<open>kadai.py\<close>\<close>

text \<open>
  A Python string is modelled by its UTF-8 encoding, a \<^typ>\<open>string\<close>. The ASCII
  characters that the source searches for are single bytes that occur in no longer
  sequence, so the tests and cuts of the source are the same on the bytes. \<open>lower\<close>
  maps the ASCII letters. \<open>strip\<close> removes every white space character of Unicode:
  the characters for which \<open>str.isspace\<close> holds, each one as its byte sequence.
\<close>

definition lower_char :: "char \<Rightarrow> char" where
  "lower_char c =
     (case map_of (zip ''ABCDEFGHIJKLMNOPQRSTUVWXYZ'' ''abcdefghijklmnopqrstuvwxyz'') c of
        None \<Rightarrow> c
      | Some l \<Rightarrow> l)"

definition py_lower :: "string \<Rightarrow> string" where
  \<comment> \<open>\<open>s.lower()\<close>\<close>
  "py_lower s = map lower_char s"

definition startswith :: "string \<Rightarrow> string \<Rightarrow> bool" where
  \<comment> \<open>\<open>s.startswith(p)\<close>\<close>
  "startswith s p = (take (length p) s = p)"

definition endswith :: "string \<Rightarrow> string \<Rightarrow> bool" where
  \<comment> \<open>\<open>s.endswith(e)\<close>\<close>
  "endswith s e = (length e \<le> length s \<and> drop (length s - length e) s = e)"

definition WHITESPACE :: "string list" where
  \<comment> \<open>the characters with \<open>str.isspace\<close>: U+0009 to U+000D, U+001C to U+0020, U+0085,
      U+00A0, U+1680, U+2000 to U+200A, U+2028, U+2029, U+202F, U+205F, U+3000\<close>
  "WHITESPACE =
     [[CHR 0x09], [CHR 0x0A], [CHR 0x0B], [CHR 0x0C], [CHR 0x0D],
      [CHR 0x1C], [CHR 0x1D], [CHR 0x1E], [CHR 0x1F], [CHR 0x20],
      [CHR 0xC2, CHR 0x85], [CHR 0xC2, CHR 0xA0], [CHR 0xE1, CHR 0x9A, CHR 0x80],
      [CHR 0xE2, CHR 0x80, CHR 0x80], [CHR 0xE2, CHR 0x80, CHR 0x81],
      [CHR 0xE2, CHR 0x80, CHR 0x82], [CHR 0xE2, CHR 0x80, CHR 0x83],
      [CHR 0xE2, CHR 0x80, CHR 0x84], [CHR 0xE2, CHR 0x80, CHR 0x85],
      [CHR 0xE2, CHR 0x80, CHR 0x86], [CHR 0xE2, CHR 0x80, CHR 0x87],
      [CHR 0xE2, CHR 0x80, CHR 0x88], [CHR 0xE2, CHR 0x80, CHR 0x89],
      [CHR 0xE2, CHR 0x80, CHR 0x8A], [CHR 0xE2, CHR 0x80, CHR 0xA8],
      [CHR 0xE2, CHR 0x80, CHR 0xA9], [CHR 0xE2, CHR 0x80, CHR 0xAF],
      [CHR 0xE2, CHR 0x81, CHR 0x9F], [CHR 0xE3, CHR 0x80, CHR 0x80]]"

function strip_prefixes :: "string list \<Rightarrow> string \<Rightarrow> string" where
  \<comment> \<open>removes from the front of \<open>s\<close> the members of \<open>ws\<close>, as long as one is there\<close>
  "strip_prefixes ws s =
     (case find (\<lambda>w. w \<noteq> [] \<and> startswith s w) ws of
        None \<Rightarrow> s
      | Some w \<Rightarrow> strip_prefixes ws (drop (length w) s))"
  by pat_completeness auto
termination
proof (relation "measure (\<lambda>(ws, s). length s)")
  show "wf (measure (\<lambda>(ws, s). length s))" by simp
next
  fix ws :: "string list" and s w :: string
  assume "find (\<lambda>w. w \<noteq> [] \<and> startswith s w) ws = Some w"
  then have "w \<noteq> []" and "take (length w) s = w"
    by (auto simp: find_Some_iff startswith_def)
  then have "s \<noteq> []" by auto
  with \<open>w \<noteq> []\<close> show "((ws, drop (length w) s), (ws, s)) \<in> measure (\<lambda>(ws, s). length s)"
    by simp
qed

declare strip_prefixes.simps [simp del]

definition py_strip :: "string \<Rightarrow> string" where
  \<comment> \<open>\<open>s.strip()\<close>: white space goes from the front, then from the end\<close>
  "py_strip s = rev (strip_prefixes (map rev WHITESPACE) (rev (strip_prefixes WHITESPACE s)))"

definition rstrip_slash :: "string \<Rightarrow> string" where
  \<comment> \<open>\<open>s.rstrip('/')\<close>\<close>
  "rstrip_slash s = rev (dropWhile (\<lambda>c. c = CHR ''/'') (rev s))"

fun py_in :: "string \<Rightarrow> string \<Rightarrow> bool" where
  \<comment> \<open>\<open>sub in s\<close>\<close>
  "py_in sub [] = (sub = [])"
| "py_in sub (c # cs) = (startswith (c # cs) sub \<or> py_in sub cs)"

definition split_hash_0 :: "string \<Rightarrow> string" where
  \<comment> \<open>\<open>s.split('#')[0]\<close>\<close>
  "split_hash_0 s = takeWhile (\<lambda>c. c \<noteq> CHR ''#'') s"

definition re_sub_empty :: "string \<Rightarrow> string \<Rightarrow> string" where
  \<comment> \<open>\<open>re.sub(r'', repl, s, flags=re.DOTALL)\<close>: the empty pattern matches the empty
      string at every position of \<open>s\<close>, and each match is replaced by \<open>repl\<close>\<close>
  "re_sub_empty repl s = repl @ concat (map (\<lambda>c. c # repl) s)"

section \<open>Module constants\<close>

definition EXCLUDED_EXTENSIONS :: "string list" where
  "EXCLUDED_EXTENSIONS =
     [''.pdf'', ''.jpg'', ''.jpeg'', ''.png'', ''.gif'', ''.svg'',
      ''.bmp'', ''.webp'', ''.tiff'', ''.css'', ''.js'', ''.xml'', ''.zip'',
      ''.mp4'', ''.mov'', ''.avi'', ''.doc'', ''.docx'', ''.xls'', ''.xlsx'', ''.ppt'', ''.pptx'']"

definition USER_AGENT :: string where
  "USER_AGENT = ''Mozilla/5.0 (Windows NT 10.0; Win64; x64) AppleWebKit/537.36 (KHTML, like Gecko) Chrome/91.0.4472.124 Safari/537.36''"

definition NO_TITLE :: string where
  \<comment> \<open>the literal of line 107, as UTF-8 bytes\<close>
  "NO_TITLE =
     [CHR 0xE3, CHR 0x82, CHR 0xBF, CHR 0xE3, CHR 0x82, CHR 0xA4, CHR 0xE3, CHR 0x83, CHR 0x88,
      CHR 0xE3, CHR 0x83, CHR 0xAB, CHR 0xE3, CHR 0x81, CHR 0xAA, CHR 0xE3, CHR 0x81, CHR 0x97]"

section \<open>The libraries the crawler calls\<close>

text \<open>
  \<open>urllib.parse\<close>, \<open>requests\<close> and \<open>bs4\<close> are not part of the repository. Their
  functions are fields of a record \<open>world\<close>, one field for each call of the source. A
  call that can raise returns an \<open>option\<close> (\<open>None\<close>: the call raises);
  \<open>session.get\<close> returns the response or the kind of exception, since the source has
  one \<open>except\<close> clause for \<open>RequestException\<close> and one for every other exception.
\<close>

record parse_result =
  scheme :: string
  netloc :: string

datatype exc = RequestException | OtherException

record response =
  status_code :: int
  content_type_header :: "string option"  \<comment> \<open>\<open>headers.get('Content-Type')\<close>\<close>
  resp_text :: string                     \<comment> \<open>\<open>.text\<close> under the apparent encoding\<close>

datatype get_result = GetRaises exc | GetResponse response

record soup =
  find_title :: "string option option"
    \<comment> \<open>\<open>soup.find('title')\<close>: \<open>None\<close>, or the tag with its \<open>.string\<close>\<close>
  find_all_a_href :: "string list"
    \<comment> \<open>the \<open>href\<close> values of \<open>soup.find_all('a', href=True)\<close>, in document order\<close>

text \<open>
  What \<open>urllib.request.urlopen\<close> does for the robots.txt URL inside
  \<open>RobotFileParser.read\<close>: it raises \<open>HTTPError\<close> with a status code, it raises
  something else (or the body is not UTF-8), or the file is loaded; then the parsed rules
  decide for a user agent and a URL, unless \<open>urlparse(unquote(url))\<close> raises
  \<open>ValueError\<close> in \<open>can_fetch\<close> (\<open>None\<close>).
\<close>

datatype robots_fetch =
  HTTPError int | FetchRaises | Loaded "string \<Rightarrow> string \<Rightarrow> bool option"

record world =
  urlparse :: "string \<Rightarrow> parse_result option"
  urljoin :: "string \<Rightarrow> string \<Rightarrow> string option"
  urlopen_robots :: "string \<Rightarrow> robots_fetch"
  session_get :: "nat \<Rightarrow> string \<Rightarrow> get_result"
    \<comment> \<open>the answer to the GET issued after \<open>n\<close> earlier ones: a site may answer the
        same URL differently each time\<close>
  BeautifulSoup :: "string \<Rightarrow> soup option"

subsection \<open>\<open>urllib.robotparser.RobotFileParser\<close>\<close>

text \<open>
  The standard library class, as far as \<open>read\<close> and \<open>can_fetch\<close> use it:
  \<^verbatim>\<open>
    def __init__(self, url=''):
        self.disallow_all = False
        self.allow_all = False
        self.last_checked = 0
    def read(self):
        try:
            f = urllib.request.urlopen(self.url)
        except urllib.error.HTTPError as err:
            if err.code in (401, 403):
                self.disallow_all = True
            elif err.code >= 400 and err.code < 500:
                self.allow_all = True
        else:
            raw = f.read()
            self.parse(raw.decode("utf-8").splitlines())    # parse sets last_checked
    def can_fetch(self, useragent, url):
        if self.disallow_all:
            return False
        if self.allow_all:
            return True
        # Until the robots.txt file has been read or found not
        # to exist, we must assume that no url is allowable.
        if not self.last_checked:
            return False
        parsed_url = urllib.parse.urlparse(urllib.parse.unquote(url))    # may raise
        ... the entries decide ...
  \<close>
\<close>

record robot_parser =
  disallow_all :: bool
  allow_all :: bool
  last_checked :: bool   \<comment> \<open>whether the time stamp is non-zero\<close>
  entries :: "string \<Rightarrow> string \<Rightarrow> bool option"
    \<comment> \<open>the last part of \<open>can_fetch\<close>; \<open>None\<close>: it raises \<open>ValueError\<close>\<close>

definition RobotFileParser :: robot_parser where
  "RobotFileParser =
     \<lparr>disallow_all = False, allow_all = False, last_checked = False,
      entries = (\<lambda>_ _. Some True)\<rparr>"

definition read :: "robots_fetch \<Rightarrow> robot_parser \<Rightarrow> robot_parser option" where
  \<comment> \<open>\<open>None\<close>: \<open>read\<close> raises, and the parser object is as it was\<close>
  "read f rp =
     (case f of
        HTTPError code \<Rightarrow>
          Some (if code = 401 \<or> code = 403 then rp\<lparr>disallow_all := True\<rparr>
                else if 400 \<le> code \<and> code < 500 then rp\<lparr>allow_all := True\<rparr>
                else rp)
      | FetchRaises \<Rightarrow> None
      | Loaded rules \<Rightarrow> Some (rp\<lparr>entries := rules, last_checked := True\<rparr>))"

definition can_fetch :: "robot_parser \<Rightarrow> string \<Rightarrow> string \<Rightarrow> bool option" where
  \<comment> \<open>\<open>None\<close>: \<open>can_fetch\<close> raises\<close>
  "can_fetch rp useragent url =
     (if disallow_all rp then Some False
      else if allow_all rp then Some True
      else if \<not> last_checked rp then Some False
      else entries rp useragent url)"

section \<open>The crawler's state\<close>

text \<open>
  The three variables of \<open>crawl_same_domain\<close> that the loop changes, the exception
  that is leaving the function, if there is one, and two observations of the run: the
  \<open>trace\<close> of what the loop did, in order, and the link \<open>depth\<close> at which each URL
  was discovered. The loop never branches on them; the
  number of requests in the trace is handed to \<open>session_get\<close>, so that the site may
  answer the same URL differently each time.
\<close>

datatype event =
  Enqueued string     \<comment> \<open>the URL was put on \<open>urls_to_visit\<close>\<close>
| Popped string       \<comment> \<open>\<open>popleft\<close> returned the URL\<close>
| Requested string    \<comment> \<open>\<open>session.get\<close> was called with the URL\<close>
| Slept               \<comment> \<open>\<open>time.sleep(0.5)\<close> ran\<close>

record crawl_state =
  urls_to_visit :: "string list"
  seen_urls :: "string set"
  scraped_pages :: "(string \<times> string) list"   \<comment> \<open>a dict, in insertion order\<close>
  raised :: "exc option"   \<comment> \<open>an exception that no \<open>except\<close> clause caught\<close>
  trace :: "event list"
  depth :: "string \<Rightarrow> nat"

fun enqueued_of :: "event \<Rightarrow> string list" where
  "enqueued_of (Enqueued u) = [u]"
| "enqueued_of _ = []"

fun popped_of :: "event \<Rightarrow> string list" where
  "popped_of (Popped u) = [u]"
| "popped_of _ = []"

fun requested_of :: "event \<Rightarrow> string list" where
  "requested_of (Requested u) = [u]"
| "requested_of _ = []"

definition enqueued :: "event list \<Rightarrow> string list" where
  "enqueued tr = concat (map enqueued_of tr)"

definition popped :: "event list \<Rightarrow> string list" where
  "popped tr = concat (map popped_of tr)"

definition requested :: "event list \<Rightarrow> string list" where
  "requested tr = concat (map requested_of tr)"

fun dict_set :: "(string \<times> string) list \<Rightarrow> string \<Rightarrow> string \<Rightarrow> (string \<times> string) list" where
  \<comment> \<open>\<open>d[k] = v\<close>: an existing key keeps its place, a new key goes last\<close>
  "dict_set [] k v = [(k, v)]"
| "dict_set ((k', v') # d) k v = (if k' = k then (k, v) # d else (k', v') # dict_set d k v)"

section \<open>The crawler\<close>

definition is_excluded :: "string \<Rightarrow> bool" where
  \<comment> \<open>line 67: \<open>any(current_url.lower().endswith(ext) for ext in EXCLUDED_EXTENSIONS)\<close>\<close>
  "is_excluded current_url = list_ex (\<lambda>ext. endswith (py_lower current_url) ext) EXCLUDED_EXTENSIONS"

definition title_text :: "string option option \<Rightarrow> string" where
  \<comment> \<open>line 107: a tag is always true, a string is true when it is not empty\<close>
  "title_text title_tag =
     (case title_tag of
        None \<Rightarrow> NO_TITLE
      | Some None \<Rightarrow> NO_TITLE
      | Some (Some s) \<Rightarrow> if s \<noteq> [] then py_strip s else NO_TITLE)"

definition html_content_cleaned :: "string \<Rightarrow> string" where
  \<comment> \<open>line 101\<close>
  "html_content_cleaned html_content = re_sub_empty [] html_content"

definition is_same_domain :: "parse_result \<Rightarrow> string \<Rightarrow> bool" where
  \<comment> \<open>line 124\<close>
  "is_same_domain parsed_full_url base_domain =
     ((scheme parsed_full_url = ''http'' \<or> scheme parsed_full_url = ''https'')
      \<and> netloc parsed_full_url = base_domain)"

text \<open>
  How the body of the \<open>try\<close> statement ends: with \<open>continue\<close>, by running to its end,
  or with an exception, which one of the two \<open>except\<close> clauses catches. The state is the
  one reached at that point: what was assigned before an exception stays assigned.
\<close>

datatype flow = Continued | Completed | Raised exc

definition enqueue :: "string \<Rightarrow> string \<Rightarrow> crawl_state \<Rightarrow> crawl_state" where
  \<comment> \<open>lines 130 and 131; the new URL is one link deeper than the page it was found on\<close>
  "enqueue current_url normalized_url s =
     s\<lparr>seen_urls := insert normalized_url (seen_urls s),
       urls_to_visit := urls_to_visit s @ [normalized_url],
       trace := trace s @ [Enqueued normalized_url],
       depth := (depth s)(normalized_url := Suc (depth s current_url))\<rparr>"

fun extract_links ::
  "world \<Rightarrow> string \<Rightarrow> string \<Rightarrow> string list \<Rightarrow> crawl_state \<Rightarrow> flow \<times> crawl_state" where
  \<comment> \<open>lines 112 to 131, over the \<open>href\<close> values still to be read\<close>
  "extract_links W base_domain current_url [] s = (Completed, s)"
| "extract_links W base_domain current_url (a_href # rest) s =
     (let href = py_strip a_href in
      if startswith href ''tel:'' \<or> startswith href ''mailto:'' \<or> startswith href ''javascript:''
      then extract_links W base_domain current_url rest s
      else
        (case urljoin W current_url href of
           None \<Rightarrow> (Raised OtherException, s)
         | Some joined \<Rightarrow>
             (let full_url = split_hash_0 joined in
              case urlparse W full_url of
                None \<Rightarrow> (Raised OtherException, s)
              | Some parsed_full_url \<Rightarrow>
                  if is_same_domain parsed_full_url base_domain then
                    (let normalized_url = rstrip_slash full_url in
                     if normalized_url \<notin> seen_urls s then
                       extract_links W base_domain current_url rest
                         (enqueue current_url normalized_url s)
                     else extract_links W base_domain current_url rest s)
                  else extract_links W base_domain current_url rest s)))"

definition try_body :: "world \<Rightarrow> string \<Rightarrow> string \<Rightarrow> crawl_state \<Rightarrow> flow \<times> crawl_state" where
  \<comment> \<open>lines 78 to 131\<close>
  "try_body W base_domain current_url s0 =
     (let s = s0\<lparr>trace := trace s0 @ [Requested current_url]\<rparr> in
      case session_get W (length (requested (trace s0))) current_url of
        GetRaises e \<Rightarrow> (Raised e, s)
      | GetResponse r \<Rightarrow>
          if status_code r \<noteq> 200 then (Continued, s)
          else
            (let content_type =
                   py_lower (case content_type_header r of None \<Rightarrow> [] | Some v \<Rightarrow> v) in
             if \<not> py_in ''text/html'' content_type then (Continued, s)
             else
               (case BeautifulSoup W (html_content_cleaned (resp_text r)) of
                  None \<Rightarrow> (Raised OtherException, s)
                | Some sp \<Rightarrow>
                    extract_links W base_domain current_url (find_all_a_href sp)
                      (s\<lparr>scraped_pages :=
                           dict_set (scraped_pages s) current_url (title_text (find_title sp))\<rparr>))))"

definition sleep :: "crawl_state \<Rightarrow> crawl_state" where
  \<comment> \<open>line 139\<close>
  "sleep s = s\<lparr>trace := trace s @ [Slept]\<rparr>"

definition loop_body :: "world \<Rightarrow> robot_parser \<Rightarrow> string \<Rightarrow> crawl_state \<Rightarrow> crawl_state" where
  \<comment> \<open>lines 64 to 139; the loop condition makes the queue non-empty. Line 71 is not
      inside the \<open>try\<close> statement: an exception of \<open>can_fetch\<close> leaves the loop\<close>
  "loop_body W robot_parser base_domain s =
     (case urls_to_visit s of
        [] \<Rightarrow> s
      | current_url # rest \<Rightarrow>
          (let s1 = s\<lparr>urls_to_visit := rest, trace := trace s @ [Popped current_url]\<rparr> in
           if is_excluded current_url then s1
           else
             (case can_fetch robot_parser USER_AGENT current_url of
                None \<Rightarrow> s1\<lparr>raised := Some OtherException\<rparr>
              | Some allowed \<Rightarrow>
                  if \<not> allowed then s1
                  else
                    (case try_body W base_domain current_url s1 of
                       (Continued, s2) \<Rightarrow> s2
                     | (Completed, s2) \<Rightarrow> sleep s2
                     | (Raised e, s2) \<Rightarrow> sleep s2))))"

definition loop_cond :: "int \<Rightarrow> crawl_state \<Rightarrow> bool" where
  \<comment> \<open>line 63; there is no next test when an exception is leaving the loop\<close>
  "loop_cond max_pages s =
     (raised s = None \<and> urls_to_visit s \<noteq> [] \<and> int (length (scraped_pages s)) < max_pages)"

partial_function (option) crawl_loop ::
  "world \<Rightarrow> robot_parser \<Rightarrow> string \<Rightarrow> int \<Rightarrow> crawl_state \<Rightarrow> crawl_state option" where
  "crawl_loop W robot_parser base_domain max_pages s =
     (if loop_cond max_pages s
      then crawl_loop W robot_parser base_domain max_pages (loop_body W robot_parser base_domain s)
      else Some s)"

declare crawl_loop.simps [code]

definition initial_state :: "string \<Rightarrow> crawl_state" where
  \<comment> \<open>lines 34 to 42\<close>
  "initial_state start_url =
     (let normalized_start_url = rstrip_slash start_url in
      \<lparr>urls_to_visit = [normalized_start_url],
       seen_urls = {normalized_start_url},
       scraped_pages = [],
       raised = None,
       trace = [Enqueued normalized_start_url],
       depth = (\<lambda>_. 0)\<rparr>)"

definition robots_url :: "parse_result \<Rightarrow> string" where
  \<comment> \<open>line 49\<close>
  "robots_url parsed_uri = scheme parsed_uri @ ''://'' @ netloc parsed_uri @ ''/robots.txt''"

definition load_robots :: "world \<Rightarrow> parse_result \<Rightarrow> robot_parser" where
  \<comment> \<open>lines 49 to 56: an exception of \<open>read\<close> is printed, nothing else\<close>
  "load_robots W parsed_uri =
     (case read (urlopen_robots W (robots_url parsed_uri)) RobotFileParser of
        None \<Rightarrow> RobotFileParser
      | Some rp \<Rightarrow> rp)"

definition crawl_run :: "world \<Rightarrow> string \<Rightarrow> int \<Rightarrow> (exc + crawl_state) option" where
  \<comment> \<open>the whole function with the state in which it ends, by \<open>return\<close> or by the
      exception \<open>raised\<close>; \<open>Inl\<close>: \<open>urlparse(start_url)\<close> raised on line 30;
      \<open>None\<close>: the loop does not end\<close>
  "crawl_run W start_url max_pages =
     (case urlparse W start_url of
        None \<Rightarrow> Some (Inl OtherException)
      | Some parsed_uri \<Rightarrow>
          map_option Inr
            (crawl_loop W (load_robots W parsed_uri) (netloc parsed_uri) max_pages
               (initial_state start_url)))"

definition crawl_same_domain ::
  "world \<Rightarrow> string \<Rightarrow> int \<Rightarrow> (exc + (string \<times> string) list) option" where
  \<comment> \<open>what the caller gets: the dictionary, or the exception\<close>
  "crawl_same_domain W start_url max_pages =
     map_option
       (\<lambda>r. case r of
              Inl e \<Rightarrow> Inl e
            | Inr t \<Rightarrow> (case raised t of None \<Rightarrow> Inr (scraped_pages t) | Some e \<Rightarrow> Inl e))
       (crawl_run W start_url max_pages)"

section \<open>Notions used to state the properties\<close>

text \<open>
  A URL passes the check of line 124 when it is the \<open>rstrip('/')\<close> of a URL whose parsed
  scheme is http or https and whose parsed host is the base domain.
\<close>

definition link_ok :: "world \<Rightarrow> string \<Rightarrow> string \<Rightarrow> bool" where
  "link_ok W base_domain u \<longleftrightarrow>
     (\<exists>full_url p. u = rstrip_slash full_url \<and> urlparse W full_url = Some p
        \<and> is_same_domain p base_domain)"

text \<open>
  What the links of one page do to the state: the URLs \<open>new\<close>, none of them seen
  before, go to the end of the queue and into the seen set, one link deeper than the page.
\<close>

definition discovers :: "string \<Rightarrow> crawl_state \<Rightarrow> string list \<Rightarrow> crawl_state \<Rightarrow> bool" where
  "discovers cur s new s' \<longleftrightarrow>
     urls_to_visit s' = urls_to_visit s @ new \<and>
     seen_urls s' = seen_urls s \<union> set new \<and>
     scraped_pages s' = scraped_pages s \<and>
     trace s' = trace s @ map Enqueued new \<and>
     depth s' = (\<lambda>u. if u \<in> set new then Suc (depth s cur) else depth s u) \<and>
     distinct new \<and> set new \<inter> seen_urls s = {}"

text \<open>
  What one run of the loop body does to the state, when \<open>cur\<close> is the URL it pops:
  whether \<open>session.get\<close> was called (\<open>req\<close>), the title recorded if any (\<open>rec\<close>),
  the URLs enqueued (\<open>new\<close>), and whether the loop slept (\<open>sl\<close>).
\<close>

definition iteration ::
  "string \<Rightarrow> string list \<Rightarrow> crawl_state \<Rightarrow> string list \<Rightarrow> bool \<Rightarrow> string option \<Rightarrow> bool
     \<Rightarrow> crawl_state \<Rightarrow> bool" where
  "iteration cur rest s new req rec sl s' \<longleftrightarrow>
     urls_to_visit s' = rest @ new \<and>
     seen_urls s' = seen_urls s \<union> set new \<and>
     scraped_pages s' =
       (case rec of None \<Rightarrow> scraped_pages s | Some t \<Rightarrow> dict_set (scraped_pages s) cur t) \<and>
     trace s' = trace s @ [Popped cur] @ (if req then [Requested cur] else [])
                  @ map Enqueued new @ (if sl then [Slept] else []) \<and>
     depth s' = (\<lambda>u. if u \<in> set new then Suc (depth s cur) else depth s u) \<and>
     distinct new \<and> set new \<inter> seen_urls s = {} \<and>
     (rec \<noteq> None \<longrightarrow> req) \<and> (new \<noteq> [] \<longrightarrow> rec \<noteq> None)"

text \<open>
  The queue discipline: the URLs leave the queue in the order in which they entered it,
  no URL enters twice, every URL that entered is in the seen set, \<open>session.get\<close> is
  called at most once for a URL and only for a popped one, and the keys of the result are
  distinct URLs for which \<open>session.get\<close> was called.
\<close>

definition queue_inv :: "crawl_state \<Rightarrow> bool" where
  "queue_inv s \<longleftrightarrow>
     popped (trace s) @ urls_to_visit s = enqueued (trace s) \<and>
     distinct (enqueued (trace s)) \<and>
     set (enqueued (trace s)) \<subseteq> seen_urls s \<and>
     distinct (requested (trace s)) \<and>
     set (requested (trace s)) \<subseteq> set (popped (trace s)) \<and>
     distinct (map fst (scraped_pages s)) \<and>
     set (map fst (scraped_pages s)) \<subseteq> set (requested (trace s))"

text \<open>
  The loop ends: every iteration either records a page, which the budget allows only
  finitely often, or leaves the queue one URL shorter.
\<close>

definition loop_measure :: "int \<Rightarrow> crawl_state \<Rightarrow> nat \<times> nat" where
  "loop_measure max_pages s =
     (nat (max_pages - int (length (scraped_pages s))), length (urls_to_visit s))"

text \<open>
  Breadth first: the URLs entered the queue in the order of their depth, and the queue
  holds at most two consecutive depths.
\<close>

definition bfs_inv :: "crawl_state \<Rightarrow> bool" where
  "bfs_inv s \<longleftrightarrow>
     sorted (map (depth s) (enqueued (trace s))) \<and>
     (\<forall>u\<in>set (urls_to_visit s). depth s u \<le> Suc (depth s (hd (urls_to_visit s))))"

text \<open>
  A URL is in the domain when \<open>urlparse\<close> gives it the scheme http or https and the
  base domain as its host. \<open>urlparse\<close> is stable when the slashes at the end of a URL
  do not change its scheme and host, as is the case for \<open>urllib.parse.urlparse\<close>.
\<close>

definition url_in_domain :: "world \<Rightarrow> string \<Rightarrow> string \<Rightarrow> bool" where
  "url_in_domain W base_domain u \<longleftrightarrow>
     (\<exists>p. urlparse W u = Some p \<and> is_same_domain p base_domain)"

definition rstrip_stable :: "world \<Rightarrow> bool" where
  "rstrip_stable W \<longleftrightarrow>
     (\<forall>u p. urlparse W u = Some p \<longrightarrow>
        (\<exists>q. urlparse W (rstrip_slash u) = Some q \<and> scheme q = scheme p \<and> netloc q = netloc p))"

definition domain_inv :: "world \<Rightarrow> string \<Rightarrow> crawl_state \<Rightarrow> bool" where
  "domain_inv W base_domain s \<longleftrightarrow>
     (\<forall>u\<in>set (enqueued (trace s)). url_in_domain W base_domain u)"

section \<open>A synthetic site\<close>

text \<open>
  The site of the specification's test: page A (the seed) links to B and C, B links to D.
  More URLs exercise the other paths: one answers 404, one raises in
  \<open>session.get\<close>, one has a link that \<open>urljoin\<close> rejects, and one links to the
  404 page and to C.
\<close>

definition host_of :: "string \<Rightarrow> string" where
  \<comment> \<open>what follows \<open>//\<close>, up to \<open>/\<close>, \<open>?\<close> or \<open>#\<close>\<close>
  "host_of rest =
     (if startswith rest ''//''
      then takeWhile (\<lambda>c. c \<notin> {CHR ''/'', CHR ''?'', CHR ''#''}) (drop 2 rest) else [])"

definition simple_urlparse :: "string \<Rightarrow> parse_result option" where
  \<comment> \<open>the scheme is what precedes the first colon, the host follows it\<close>
  "simple_urlparse u =
     (if CHR '':'' \<in> set u then
        (let sch = takeWhile (\<lambda>c. c \<noteq> CHR '':'') u;
             rest = drop (Suc (length sch)) u
         in Some \<lparr>scheme = sch, netloc = host_of rest\<rparr>)
      else Some \<lparr>scheme = [], netloc = []\<rparr>)"

definition site_urljoin :: "string \<Rightarrow> string \<Rightarrow> string option" where
  "site_urljoin base href =
     (if CHR ''['' \<in> set href then None
      else if startswith href ''/'' then Some (''http://site.test'' @ href)
      else Some href)"

definition html_page :: "string \<Rightarrow> get_result" where
  "html_page body =
     GetResponse \<lparr>status_code = 200, content_type_header = Some ''text/html; charset=UTF-8'',
                  resp_text = body\<rparr>"

definition site_get :: "nat \<Rightarrow> string \<Rightarrow> get_result" where
  "site_get n u =
     (if u = ''http://site.test'' then html_page ''A''
      else if u = ''http://site.test/b'' then html_page ''B''
      else if u = ''http://site.test/c'' then html_page ''C''
      else if u = ''http://site.test/d'' then html_page ''D''
      else if u = ''http://site.test/broken'' then html_page ''X''
      else if u = ''http://site.test/idx'' then html_page ''I''
      else if u = ''http://site.test/down'' then GetRaises RequestException
      else GetResponse \<lparr>status_code = 404, content_type_header = Some ''text/html'',
                        resp_text = []\<rparr>)"

definition site_soup :: "string \<Rightarrow> soup option" where
  "site_soup body =
     (if body = ''A'' then
        Some \<lparr>find_title = Some (Some ''A''), find_all_a_href = [''/b'', ''mailto:a@b.com'', ''/c/'']\<rparr>
      else if body = ''B'' then
        Some \<lparr>find_title = Some (Some (CHR 0xE3 # CHR 0x80 # CHR 0x80 # ''B '')),
              find_all_a_href = [''/d#top'', ''/c'']\<rparr>
      else if body = ''X'' then
        Some \<lparr>find_title = Some (Some ''X''), find_all_a_href = [''/c'', ''http://['', ''/d'']\<rparr>
      else if body = ''I'' then
        Some \<lparr>find_title = Some (Some ''I''), find_all_a_href = [''/missing'', ''/c'']\<rparr>
      else Some \<lparr>find_title = None, find_all_a_href = []\<rparr>)"

definition site :: world where
  "site =
     \<lparr>urlparse = simple_urlparse, urljoin = site_urljoin,
      urlopen_robots = (\<lambda>_. Loaded (\<lambda>_ _. Some True)),
      session_get = site_get, BeautifulSoup = site_soup\<rparr>"

text \<open>
  The extension filter as the specification words it: the suffix test on the lower-cased
  path of the URL, the path being what follows the host up to \<open>?\<close> or \<open>#\<close>.
\<close>

fun after_scheme :: "string \<Rightarrow> string" where
  "after_scheme [] = []"
| "after_scheme (c # cs) =
     (if startswith (c # cs) ''://'' then drop 3 (c # cs) else after_scheme cs)"

definition url_path :: "string \<Rightarrow> string" where
  "url_path u =
     takeWhile (\<lambda>c. c \<notin> {CHR ''?'', CHR ''#''})
       (dropWhile (\<lambda>c. c \<notin> {CHR ''/'', CHR ''?'', CHR ''#''}) (after_scheme u))"

definition path_excluded :: "string \<Rightarrow> bool" where
  "path_excluded u = list_ex (\<lambda>ext. endswith (py_lower (url_path u)) ext) EXCLUDED_EXTENSIONS"

text \<open>
  The site with a robots.txt that cannot be fetched: \<open>urlopen\<close> raises something
  other than \<open>HTTPError\<close>, for example \<open>URLError\<close> for a refused connection.
\<close>

text \<open>
  The site with rules for which \<open>can_fetch\<close> raises on a URL with \<open>%5B\<close>, as the
  library does for \<open>http://site.test%5B\<close>: the unquoted host has an opening bracket
  and no closing one.
\<close>

definition site_strict_robots :: world where
  "site_strict_robots =
     site\<lparr>urlopen_robots := (\<lambda>_. Loaded (\<lambda>_ u. if py_in ''%5B'' u then None else Some True))\<rparr>"

definition site_robots_down :: world where
  "site_robots_down = site\<lparr>urlopen_robots := (\<lambda>_. FetchRaises)\<rparr>"

text \<open>
  The fetch of a URL fails before anything is recorded when \<open>session.get\<close> raises, or
  when the page is an HTML page with status 200 and the parser raises.
\<close>

text \<open>
  The page of a URL is parsed when it comes with status 200 as an HTML page and the parser
  returns the document \<open>sp\<close>.
\<close>

definition page_parsed :: "world \<Rightarrow> nat \<Rightarrow> string \<Rightarrow> soup \<Rightarrow> bool" where
  "page_parsed W n u sp =
     (case session_get W n u of
        GetRaises e \<Rightarrow> False
      | GetResponse r \<Rightarrow>
          status_code r = 200
          \<and> py_in ''text/html'' (py_lower (case content_type_header r of None \<Rightarrow> [] | Some v \<Rightarrow> v))
          \<and> BeautifulSoup W (html_content_cleaned (resp_text r)) = Some sp)"

definition fetch_fails :: "world \<Rightarrow> nat \<Rightarrow> string \<Rightarrow> bool" where
  "fetch_fails W n u =
     (case session_get W n u of
        GetRaises e \<Rightarrow> True
      | GetResponse r \<Rightarrow>
          status_code r = 200
          \<and> py_in ''text/html'' (py_lower (case content_type_header r of None \<Rightarrow> [] | Some v \<Rightarrow> v))
          \<and> BeautifulSoup W (html_content_cleaned (resp_text r)) = None)"

section \<open>Link extraction\<close>

lemma discovers_Nil: "discovers cur s [] s"
  by (simp add: discovers_def)

lemma discovers_enqueue:
  assumes "n \<notin> seen_urls s" "cur \<in> seen_urls s"
    and "discovers cur (enqueue cur n s) new s'"
  shows "discovers cur s (n # new) s'"
proof -
  from assms(1,2) have ne: "n \<noteq> cur" by auto
  from assms(3) have d: "depth s' = (\<lambda>u. if u \<in> set new then Suc (depth (enqueue cur n s) cur)
        else depth (enqueue cur n s) u)"
    by (simp add: discovers_def)
  have "depth s' = (\<lambda>u. if u \<in> set (n # new) then Suc (depth s cur) else depth s u)"
    unfolding d using ne by (auto simp: enqueue_def fun_eq_iff)
  moreover from assms(1,3) have "distinct (n # new)" "set (n # new) \<inter> seen_urls s = {}"
    by (auto simp: discovers_def enqueue_def)
  moreover from assms(3) have "urls_to_visit s' = urls_to_visit s @ n # new"
    "seen_urls s' = seen_urls s \<union> set (n # new)" "scraped_pages s' = scraped_pages s"
    "trace s' = trace s @ map Enqueued (n # new)"
    by (auto simp: discovers_def enqueue_def)
  ultimately show ?thesis unfolding discovers_def by blast
qed

lemma extract_links_Cons_cases:
  "extract_links W bd cur (h # hs) s = extract_links W bd cur hs s
   \<or> extract_links W bd cur (h # hs) s = (Raised OtherException, s)
   \<or> (\<exists>n. n \<notin> seen_urls s \<and> link_ok W bd n
        \<and> extract_links W bd cur (h # hs) s = extract_links W bd cur hs (enqueue cur n s))"
  by (auto simp: Let_def link_ok_def split: option.splits)

lemma extract_links_discovers:
  "cur \<in> seen_urls s \<Longrightarrow>
   \<exists>new. discovers cur s new (snd (extract_links W bd cur hs s)) \<and> (\<forall>u\<in>set new. link_ok W bd u)"
proof (induction hs arbitrary: s)
  case Nil
  have "discovers cur s [] (snd (extract_links W bd cur [] s))" by (simp add: discovers_Nil)
  then show ?case by (intro exI[of _ "[]"]) simp
next
  case (Cons h hs)
  consider (skip) "extract_links W bd cur (h # hs) s = extract_links W bd cur hs s"
    | (raised) "extract_links W bd cur (h # hs) s = (Raised OtherException, s)"
    | (enq) n where "n \<notin> seen_urls s" "link_ok W bd n"
        "extract_links W bd cur (h # hs) s = extract_links W bd cur hs (enqueue cur n s)"
    using extract_links_Cons_cases[of W bd cur h hs s] by blast
  then show ?case
  proof cases
    case skip
    with Cons show ?thesis by simp
  next
    case raised
    then have "discovers cur s [] (snd (extract_links W bd cur (h # hs) s))"
      by (simp add: discovers_Nil)
    then show ?thesis by (intro exI[of _ "[]"]) simp
  next
    case enq
    from Cons.prems have "cur \<in> seen_urls (enqueue cur n s)" by (simp add: enqueue_def)
    from Cons.IH[OF this] obtain new where
      new: "discovers cur (enqueue cur n s) new (snd (extract_links W bd cur hs (enqueue cur n s)))"
        "\<forall>u\<in>set new. link_ok W bd u" by blast
    from discovers_enqueue[OF enq(1) Cons.prems new(1)] enq(2,3) new(2)
    show ?thesis by (intro exI[of _ "n # new"]) simp
  qed
qed

section \<open>One iteration of the loop\<close>

lemma extract_links_flow: "fst (extract_links W bd cur hs s) \<noteq> Continued"
  by (induction hs arbitrary: s) (simp_all add: Let_def split: option.splits)

lemma try_body_cases:
  "(\<exists>fl. try_body W bd cur s = (fl, s\<lparr>trace := trace s @ [Requested cur]\<rparr>))
   \<or> (\<exists>t hs. try_body W bd cur s =
         extract_links W bd cur hs
           (s\<lparr>trace := trace s @ [Requested cur],
              scraped_pages := dict_set (scraped_pages s) cur t\<rparr>))"
  by (auto simp: try_body_def Let_def split: get_result.splits option.splits)

lemma loop_body_Cons:
  "urls_to_visit s = cur # rest \<Longrightarrow>
   loop_body W rp bd s =
     (let s1 = s\<lparr>urls_to_visit := rest, trace := trace s @ [Popped cur]\<rparr> in
      if is_excluded cur \<or> can_fetch rp USER_AGENT cur = Some False then s1
      else if can_fetch rp USER_AGENT cur = None then s1\<lparr>raised := Some OtherException\<rparr>
      else (case try_body W bd cur s1 of
              (Continued, s2) \<Rightarrow> s2
            | (fl, s2) \<Rightarrow> sleep s2))"
  by (auto simp: loop_body_def Let_def split: prod.splits flow.splits option.splits)

lemma loop_body_iteration:
  assumes q: "urls_to_visit s = cur # rest" and seen: "cur \<in> seen_urls s"
  shows "\<exists>new req rec sl. iteration cur rest s new req rec sl (loop_body W rp bd s)
           \<and> (\<forall>u\<in>set new. link_ok W bd u)"
proof -
  define s1 where "s1 = s\<lparr>urls_to_visit := rest, trace := trace s @ [Popped cur]\<rparr>"
  define sR where "sR = s1\<lparr>trace := trace s1 @ [Requested cur]\<rparr>"
  show ?thesis
  proof (cases "is_excluded cur \<or> can_fetch rp USER_AGENT cur \<noteq> Some True")
    case True
    then have "loop_body W rp bd s = s1 \<or> loop_body W rp bd s = s1\<lparr>raised := Some OtherException\<rparr>"
      using loop_body_Cons[OF q, of W rp bd]
      by (cases "can_fetch rp USER_AGENT cur") (auto simp: s1_def Let_def)
    then have "iteration cur rest s [] False None False (loop_body W rp bd s)"
      by (auto simp: iteration_def s1_def)
    moreover have "\<forall>u\<in>set []. link_ok W bd u" by simp
    ultimately show ?thesis by blast
  next
    case False
    then have lb: "loop_body W rp bd s =
        (case try_body W bd cur s1 of (Continued, s2) \<Rightarrow> s2 | (fl, s2) \<Rightarrow> sleep s2)"
      using loop_body_Cons[OF q, of W rp bd] by (simp add: s1_def)
    from try_body_cases[of W bd cur s1]
    consider (plain) fl where "try_body W bd cur s1 = (fl, sR)"
      | (links) t hs where "try_body W bd cur s1 =
           extract_links W bd cur hs (sR\<lparr>scraped_pages := dict_set (scraped_pages s1) cur t\<rparr>)"
      unfolding sR_def by auto
    then show ?thesis
    proof cases
      case plain
      then have "loop_body W rp bd s = (if fl = Continued then sR else sleep sR)"
        unfolding lb by (cases fl) simp_all
      then have "iteration cur rest s [] True None (fl \<noteq> Continued) (loop_body W rp bd s)"
        by (simp add: iteration_def s1_def sR_def sleep_def)
      moreover have "\<forall>u\<in>set []. link_ok W bd u" by simp
      ultimately show ?thesis by blast
    next
      case links
      define s3 where "s3 = sR\<lparr>scraped_pages := dict_set (scraped_pages s1) cur t\<rparr>"
      define r where "r = extract_links W bd cur hs s3"
      have "cur \<in> seen_urls s3" using seen by (simp add: s3_def sR_def s1_def)
      from extract_links_discovers[OF this, of W bd hs] obtain new where
        new: "discovers cur s3 new (snd r)" "\<forall>u\<in>set new. link_ok W bd u"
        unfolding r_def by blast
      have "fst r \<noteq> Continued" unfolding r_def by (rule extract_links_flow)
      moreover have "try_body W bd cur s1 = (fst r, snd r)" using links by (simp add: r_def s3_def)
      ultimately have "loop_body W rp bd s = sleep (snd r)"
        unfolding lb by (cases "fst r") simp_all
      with new(1) have "iteration cur rest s new True (Some t) True (loop_body W rp bd s)"
        by (simp add: iteration_def discovers_def s3_def sR_def s1_def sleep_def cong: if_cong)
      with new(2) show ?thesis by blast
    qed
  qed
qed

section \<open>The queue discipline\<close>

lemma popped_append [simp]: "popped (a @ b) = popped a @ popped b"
  by (simp add: popped_def)

lemma enqueued_append [simp]: "enqueued (a @ b) = enqueued a @ enqueued b"
  by (simp add: enqueued_def)

lemma requested_append [simp]: "requested (a @ b) = requested a @ requested b"
  by (simp add: requested_def)

lemma popped_Cons [simp]: "popped (e # tr) = popped_of e @ popped tr"
  by (simp add: popped_def)

lemma enqueued_Cons [simp]: "enqueued (e # tr) = enqueued_of e @ enqueued tr"
  by (simp add: enqueued_def)

lemma requested_Cons [simp]: "requested (e # tr) = requested_of e @ requested tr"
  by (simp add: requested_def)

lemma popped_Nil [simp]: "popped [] = []"
  by (simp add: popped_def)

lemma enqueued_Nil [simp]: "enqueued [] = []"
  by (simp add: enqueued_def)

lemma requested_Nil [simp]: "requested [] = []"
  by (simp add: requested_def)

lemma popped_map_Enqueued [simp]: "popped (map Enqueued new) = []"
  by (induction new) simp_all

lemma requested_map_Enqueued [simp]: "requested (map Enqueued new) = []"
  by (induction new) simp_all

lemma enqueued_map_Enqueued [simp]: "enqueued (map Enqueued new) = new"
  by (induction new) simp_all

lemma iteration_popped:
  "iteration cur rest s new req rec sl s' \<Longrightarrow> popped (trace s') = popped (trace s) @ [cur]"
  by (simp add: iteration_def)

lemma iteration_enqueued:
  "iteration cur rest s new req rec sl s' \<Longrightarrow> enqueued (trace s') = enqueued (trace s) @ new"
  by (simp add: iteration_def)

lemma iteration_requested:
  "iteration cur rest s new req rec sl s' \<Longrightarrow>
   requested (trace s') = requested (trace s) @ (if req then [cur] else [])"
  by (simp add: iteration_def)

lemma keys_dict_set:
  "map fst (dict_set d k v) = (if k \<in> set (map fst d) then map fst d else map fst d @ [k])"
  by (induction d) force+

lemma length_dict_set:
  "length (dict_set d k v) = (if k \<in> set (map fst d) then length d else Suc (length d))"
  by (induction d) force+

lemma queue_inv_fresh:
  assumes "queue_inv s" "urls_to_visit s = cur # rest"
  shows "cur \<notin> set (popped (trace s))" "cur \<notin> set (requested (trace s))"
    "cur \<notin> set (map fst (scraped_pages s))" "cur \<in> seen_urls s"
proof -
  from assms have e: "enqueued (trace s) = popped (trace s) @ cur # rest"
    and d: "distinct (enqueued (trace s))" by (simp_all add: queue_inv_def)
  from d show p: "cur \<notin> set (popped (trace s))" unfolding e by simp
  from assms(1) have "set (requested (trace s)) \<subseteq> set (popped (trace s))"
    by (simp add: queue_inv_def)
  with p show r: "cur \<notin> set (requested (trace s))" by blast
  from assms(1) have "set (map fst (scraped_pages s)) \<subseteq> set (requested (trace s))"
    by (simp add: queue_inv_def)
  with r show "cur \<notin> set (map fst (scraped_pages s))" by blast
  from assms(1) have "set (enqueued (trace s)) \<subseteq> seen_urls s" by (simp add: queue_inv_def)
  then show "cur \<in> seen_urls s" unfolding e by simp
qed

lemma iteration_scraped:
  assumes "queue_inv s" "urls_to_visit s = cur # rest" "iteration cur rest s new req rec sl s'"
  shows "map fst (scraped_pages s') = map fst (scraped_pages s) @ (if rec = None then [] else [cur])"
    and "length (scraped_pages s') = length (scraped_pages s) + (if rec = None then 0 else 1)"
  using queue_inv_fresh(3)[OF assms(1,2)] assms(3)
  by (auto simp: iteration_def keys_dict_set length_dict_set split: option.splits)

lemma queue_inv_iteration:
  assumes inv: "queue_inv s" and q: "urls_to_visit s = cur # rest"
    and it: "iteration cur rest s new req rec sl s'"
  shows "queue_inv s'"
proof -
  note fresh = queue_inv_fresh[OF inv q]
  have p: "popped (trace s') = popped (trace s) @ [cur]" by (rule iteration_popped[OF it])
  have e: "enqueued (trace s') = enqueued (trace s) @ new" by (rule iteration_enqueued[OF it])
  have r: "requested (trace s') = requested (trace s) @ (if req then [cur] else [])"
    by (rule iteration_requested[OF it])
  have k: "map fst (scraped_pages s') = map fst (scraped_pages s) @ (if rec = None then [] else [cur])"
    by (rule iteration_scraped(1)[OF inv q it])
  from it have qs: "urls_to_visit s' = rest @ new" and sn: "seen_urls s' = seen_urls s \<union> set new"
    and dn: "distinct new" and nn: "set new \<inter> seen_urls s = {}" and rr: "rec \<noteq> None \<longrightarrow> req"
    by (simp_all add: iteration_def)
  from inv have i1: "popped (trace s) @ urls_to_visit s = enqueued (trace s)"
    and i2: "distinct (enqueued (trace s))" and i3: "set (enqueued (trace s)) \<subseteq> seen_urls s"
    and i4: "distinct (requested (trace s))"
    and i5: "set (requested (trace s)) \<subseteq> set (popped (trace s))"
    and i6: "distinct (map fst (scraped_pages s))"
    and i7: "set (map fst (scraped_pages s)) \<subseteq> set (requested (trace s))"
    by (simp_all add: queue_inv_def)
  have "popped (trace s') @ urls_to_visit s' = enqueued (trace s')"
    unfolding p e qs using i1 q by simp
  moreover have "distinct (enqueued (trace s'))"
    unfolding e using i2 dn i3 nn by auto
  moreover have "set (enqueued (trace s')) \<subseteq> seen_urls s'"
    unfolding e sn using i3 by auto
  moreover have "distinct (requested (trace s'))"
    unfolding r using i4 fresh(2) by simp
  moreover have "set (requested (trace s')) \<subseteq> set (popped (trace s'))"
    unfolding r p using i5 by auto
  moreover have "distinct (map fst (scraped_pages s'))"
    unfolding k using i6 fresh(3) by simp
  moreover have "set (map fst (scraped_pages s')) \<subseteq> set (requested (trace s'))"
    unfolding k r using i7 rr by auto
  ultimately show ?thesis unfolding queue_inv_def by blast
qed

lemma queue_inv_initial: "queue_inv (initial_state start_url)"
  by (simp add: queue_inv_def initial_state_def Let_def)

lemma queue_inv_loop_body:
  assumes "queue_inv s" "loop_cond max_pages s"
  shows "queue_inv (loop_body W rp bd s)"
proof -
  from assms(2) obtain cur rest where q: "urls_to_visit s = cur # rest"
    by (cases "urls_to_visit s") (simp_all add: loop_cond_def)
  from loop_body_iteration[OF q queue_inv_fresh(4)[OF assms(1) q], of W rp bd]
  obtain new req rec sl where "iteration cur rest s new req rec sl (loop_body W rp bd s)" by blast
  from queue_inv_iteration[OF assms(1) q this] show ?thesis .
qed

section \<open>The loop ends and keeps its invariants\<close>

lemma loop_cond_Cons:
  assumes "loop_cond max_pages s"
  obtains cur rest where "urls_to_visit s = cur # rest"
  using assms by (cases "urls_to_visit s") (simp_all add: loop_cond_def)

lemma loop_body_decreases:
  assumes inv: "queue_inv s" and c: "loop_cond max_pages s"
  shows "(loop_measure max_pages (loop_body W rp bd s), loop_measure max_pages s)
           \<in> less_than <*lex*> less_than"
proof -
  from c obtain cur rest where q: "urls_to_visit s = cur # rest" by (rule loop_cond_Cons)
  from loop_body_iteration[OF q queue_inv_fresh(4)[OF inv q], of W rp bd]
  obtain new req rec sl where it: "iteration cur rest s new req rec sl (loop_body W rp bd s)"
    by blast
  have len: "length (scraped_pages (loop_body W rp bd s)) =
      length (scraped_pages s) + (if rec = None then 0 else 1)"
    by (rule iteration_scraped(2)[OF inv q it])
  from c have lt: "int (length (scraped_pages s)) < max_pages" by (simp add: loop_cond_def)
  show ?thesis
  proof (cases "rec = None")
    case True
    with it have "new = []" by (simp add: iteration_def)
    with it have "urls_to_visit (loop_body W rp bd s) = rest" by (simp add: iteration_def)
    with len True q show ?thesis by (simp add: loop_measure_def)
  next
    case False
    with len lt show ?thesis by (simp add: loop_measure_def)
  qed
qed

lemma crawl_loop_rule:
  assumes "queue_inv s" and "P s"
    and step: "\<And>s. queue_inv s \<Longrightarrow> P s \<Longrightarrow> loop_cond max_pages s \<Longrightarrow> P (loop_body W rp bd s)"
  shows "\<exists>t. crawl_loop W rp bd max_pages s = Some t \<and> queue_inv t \<and> P t
            \<and> \<not> loop_cond max_pages t"
proof -
  have "wf (inv_image (less_than <*lex*> less_than) (loop_measure max_pages))"
    by (intro wf_inv_image wf_lex_prod wf_less_than)
  from this assms(1,2) show ?thesis
  proof (induction s rule: wf_induct_rule)
    case (less s)
    show ?case
    proof (cases "loop_cond max_pages s")
      case True
      have "(loop_body W rp bd s, s)
              \<in> inv_image (less_than <*lex*> less_than) (loop_measure max_pages)"
        using loop_body_decreases[OF less.prems(1) True, of W rp bd] by simp
      moreover have "queue_inv (loop_body W rp bd s)"
        by (rule queue_inv_loop_body[OF less.prems(1) True])
      moreover have "P (loop_body W rp bd s)" by (rule step[OF less.prems True])
      ultimately obtain t where
        "crawl_loop W rp bd max_pages (loop_body W rp bd s) = Some t \<and> queue_inv t \<and> P t
           \<and> \<not> loop_cond max_pages t"
        using less.IH by blast
      with True show ?thesis by (subst crawl_loop.simps) simp
    next
      case False
      with less.prems show ?thesis by (subst crawl_loop.simps) simp
    qed
  qed
qed

section \<open>Breadth-first order\<close>

lemma sorted_map_const: "\<forall>u\<in>set xs. f u = c \<Longrightarrow> sorted (map f xs)"
  by (induction xs) auto

lemma bfs_inv_iteration:
  assumes inv: "queue_inv s" and bfs: "bfs_inv s" and q: "urls_to_visit s = cur # rest"
    and it: "iteration cur rest s new req rec sl s'"
  shows "bfs_inv s'"
proof -
  have e': "enqueued (trace s') = enqueued (trace s) @ new" by (rule iteration_enqueued[OF it])
  from inv q have e: "enqueued (trace s) = popped (trace s) @ cur # rest"
    by (simp add: queue_inv_def)
  from inv have sub: "set (enqueued (trace s)) \<subseteq> seen_urls s" by (simp add: queue_inv_def)
  from it have d: "depth s' = (\<lambda>u. if u \<in> set new then Suc (depth s cur) else depth s u)"
    and nn: "set new \<inter> seen_urls s = {}" and qs: "urls_to_visit s' = rest @ new"
    by (simp_all add: iteration_def)
  have old: "depth s' u = depth s u" if "u \<in> set (enqueued (trace s))" for u
    using that sub nn unfolding d by auto
  have new: "depth s' u = Suc (depth s cur)" if "u \<in> set new" for u
    using that unfolding d by simp
  from bfs have so: "sorted (map (depth s) (enqueued (trace s)))"
    and bd: "\<forall>u\<in>set (cur # rest). depth s u \<le> Suc (depth s cur)"
    using q by (simp_all add: bfs_inv_def)
  from so have before: "\<forall>u\<in>set (popped (trace s)). depth s u \<le> depth s cur"
    and after: "\<forall>u\<in>set rest. depth s cur \<le> depth s u"
    unfolding e by (auto simp: sorted_append)
  have all: "\<forall>u\<in>set (enqueued (trace s)). depth s u \<le> Suc (depth s cur)"
    unfolding e using before bd by auto
  have m: "map (depth s') (enqueued (trace s)) = map (depth s) (enqueued (trace s))"
    using old by simp
  have "sorted (map (depth s') new)" using new by (intro sorted_map_const[of _ _ "Suc (depth s cur)"]) simp
  with so all new have 1: "sorted (map (depth s') (enqueued (trace s')))"
    unfolding e' by (simp add: sorted_append m)
  have 2: "depth s' u \<le> Suc (depth s' (hd (rest @ new)))" if u: "u \<in> set (rest @ new)" for u
  proof (cases rest)
    case Nil
    with u have "u \<in> set new" "hd (rest @ new) \<in> set new" by (cases new; simp)+
    then show ?thesis by (simp add: new)
  next
    case (Cons r rs)
    then have "r \<in> set (enqueued (trace s))" "r \<in> set rest" unfolding e by simp_all
    then have r: "depth s' r = depth s r" "depth s cur \<le> depth s r" using old after by auto
    have "depth s' u \<le> Suc (depth s cur)"
    proof (cases "u \<in> set new")
      case True
      then show ?thesis by (simp add: new)
    next
      case False
      with u have "u \<in> set rest" by simp
      then have "u \<in> set (enqueued (trace s))" unfolding e by simp
      with all old show ?thesis by simp
    qed
    with r Cons show ?thesis by simp
  qed
  from 1 2 show ?thesis unfolding bfs_inv_def qs by blast
qed

lemma bfs_inv_loop_body:
  assumes "queue_inv s" "bfs_inv s" "loop_cond max_pages s"
  shows "bfs_inv (loop_body W rp bd s)"
proof -
  from assms(3) obtain cur rest where q: "urls_to_visit s = cur # rest" by (rule loop_cond_Cons)
  from loop_body_iteration[OF q queue_inv_fresh(4)[OF assms(1) q], of W rp bd]
  obtain new req rec sl where "iteration cur rest s new req rec sl (loop_body W rp bd s)" by blast
  from bfs_inv_iteration[OF assms(1,2) q this] show ?thesis .
qed

lemma bfs_inv_initial: "bfs_inv (initial_state start_url)"
  by (simp add: bfs_inv_def initial_state_def Let_def)

section \<open>Domain containment\<close>

lemma link_ok_in_domain:
  assumes "rstrip_stable W" "link_ok W bd u"
  shows "url_in_domain W bd u"
proof -
  from assms(2) obtain full_url p where u: "u = rstrip_slash full_url"
    and p: "urlparse W full_url = Some p" "is_same_domain p bd"
    unfolding link_ok_def by blast
  from assms(1) p(1) obtain q where "urlparse W (rstrip_slash full_url) = Some q"
    "scheme q = scheme p" "netloc q = netloc p"
    unfolding rstrip_stable_def by blast
  with p(2) u show ?thesis unfolding url_in_domain_def is_same_domain_def by auto
qed

lemma domain_inv_loop_body:
  assumes st: "rstrip_stable W" and inv: "queue_inv s" and dom: "domain_inv W bd s"
    and c: "loop_cond max_pages s"
  shows "domain_inv W bd (loop_body W rp bd s)"
proof -
  from c obtain cur rest where q: "urls_to_visit s = cur # rest" by (rule loop_cond_Cons)
  from loop_body_iteration[OF q queue_inv_fresh(4)[OF inv q], of W rp bd]
  obtain new req rec sl where it: "iteration cur rest s new req rec sl (loop_body W rp bd s)"
    and ok: "\<forall>u\<in>set new. link_ok W bd u" by blast
  have "enqueued (trace (loop_body W rp bd s)) = enqueued (trace s) @ new"
    by (rule iteration_enqueued[OF it])
  with dom ok link_ok_in_domain[OF st] show ?thesis unfolding domain_inv_def by auto
qed

lemma domain_inv_initial:
  assumes "rstrip_stable W" "urlparse W start_url = Some p"
    "scheme p = ''http'' \<or> scheme p = ''https''"
  shows "domain_inv W (netloc p) (initial_state start_url)"
proof -
  from assms(2,3) have "link_ok W (netloc p) (rstrip_slash start_url)"
    unfolding link_ok_def is_same_domain_def by blast
  from link_ok_in_domain[OF assms(1) this] show ?thesis
    by (simp add: domain_inv_def initial_state_def Let_def)
qed

section \<open>The whole run\<close>

lemma crawl_run_rule:
  assumes p: "urlparse W start_url = Some p"
    and init: "P (initial_state start_url)"
    and step: "\<And>s. queue_inv s \<Longrightarrow> P s \<Longrightarrow> loop_cond max_pages s
                 \<Longrightarrow> P (loop_body W (load_robots W p) (netloc p) s)"
  shows "\<exists>t. crawl_run W start_url max_pages = Some (Inr t) \<and> queue_inv t \<and> P t
            \<and> \<not> loop_cond max_pages t"
proof -
  from crawl_loop_rule[of "initial_state start_url" P max_pages W "load_robots W p" "netloc p",
      OF queue_inv_initial init step]
  obtain t where "crawl_loop W (load_robots W p) (netloc p) max_pages (initial_state start_url) = Some t"
    "queue_inv t" "P t" "\<not> loop_cond max_pages t" by blast
  with p show ?thesis by (simp add: crawl_run_def)
qed

lemmas site_defs =
  site_def simple_urlparse_def host_of_def site_urljoin_def html_page_def site_get_def site_soup_def

lemmas crawl_defs =
  crawl_same_domain_def crawl_run_def initial_state_def load_robots_def robots_url_def
  read_def RobotFileParser_def can_fetch_def loop_cond_def loop_body_def try_body_def sleep_def
  enqueue_def is_excluded_def EXCLUDED_EXTENSIONS_def endswith_def py_lower_def lower_char_def
  startswith_def html_content_cleaned_def re_sub_empty_def title_text_def py_strip_def
  WHITESPACE_def strip_prefixes.simps is_same_domain_def split_hash_0_def rstrip_slash_def USER_AGENT_def Let_def

lemma site_urlparse_seed:
  "urlparse site ''http://site.test/'' = Some \<lparr>scheme = ''http'', netloc = ''site.test''\<rparr>"
  by (simp add: site_defs startswith_def)

section \<open>No duplicate visits\<close>

text \<open>
  C1. Whatever the site answers, the run ends, \<open>session.get\<close> is called at most once
  for a URL, and a URL is a key of the result at most once. The reason is the queue
  discipline: no URL enters the queue twice, since \<open>enqueue\<close> puts a URL into the seen
  set when it puts it on the queue and the loop enqueues only URLs that are not in the seen
  set; the requests are made for popped URLs only.
\<close>

theorem no_duplicate_visits:
  assumes "urlparse W start_url = Some p"
  shows "\<exists>t. crawl_run W start_url max_pages = Some (Inr t)
           \<and> distinct (requested (trace t))
           \<and> distinct (map fst (scraped_pages t))
           \<and> set (map fst (scraped_pages t)) \<subseteq> set (requested (trace t))
           \<and> set (requested (trace t)) \<subseteq> set (popped (trace t))
           \<and> popped (trace t) @ urls_to_visit t = enqueued (trace t)
           \<and> distinct (enqueued (trace t))
           \<and> set (enqueued (trace t)) \<subseteq> seen_urls t"
proof -
  from crawl_run_rule[of W start_url p "\<lambda>_. True" max_pages, OF assms]
  obtain t where "crawl_run W start_url max_pages = Some (Inr t)" "queue_inv t" by blast
  then show ?thesis unfolding queue_inv_def by blast
qed

theorem no_duplicate_visits_witness:
  "urlparse site ''http://site.test/'' = Some \<lparr>scheme = ''http'', netloc = ''site.test''\<rparr>
   \<and> (\<exists>t. crawl_run site ''http://site.test/'' 4 = Some (Inr t)
           \<and> distinct (requested (trace t))
           \<and> distinct (map fst (scraped_pages t))
           \<and> set (map fst (scraped_pages t)) \<subseteq> set (requested (trace t))
           \<and> set (requested (trace t)) \<subseteq> set (popped (trace t))
           \<and> popped (trace t) @ urls_to_visit t = enqueued (trace t)
           \<and> distinct (enqueued (trace t))
           \<and> set (enqueued (trace t)) \<subseteq> seen_urls t)"
  using no_duplicate_visits[OF site_urlparse_seed, of 4] site_urlparse_seed by simp

section \<open>The page budget\<close>

lemma budget_loop_body:
  assumes inv: "queue_inv s" and c: "loop_cond max_pages s"
  shows "int (length (scraped_pages (loop_body W rp bd s))) \<le> max_pages"
proof -
  from c obtain cur rest where q: "urls_to_visit s = cur # rest" by (rule loop_cond_Cons)
  from loop_body_iteration[OF q queue_inv_fresh(4)[OF inv q], of W rp bd]
  obtain new req rec sl where it: "iteration cur rest s new req rec sl (loop_body W rp bd s)"
    by blast
  from iteration_scraped(2)[OF inv q it] c show ?thesis by (simp add: loop_cond_def)
qed

text \<open>
  C2. For a budget that is not negative, the result has at most \<open>max_pages\<close> entries;
  it is what the function returns, unless the robots check raised. A run that returns
  ends with an empty queue or a full budget. The loop does not run from a state whose
  result has reached the budget. With \<open>max_pages = 0\<close> the run calls
  \<open>session.get\<close> for no URL and returns the empty dictionary.
\<close>

theorem budget_respected:
  assumes "urlparse W start_url = Some p" and "0 \<le> max_pages"
  shows "(\<exists>t. crawl_run W start_url max_pages = Some (Inr t)
            \<and> crawl_same_domain W start_url max_pages
                = Some (case raised t of None \<Rightarrow> Inr (scraped_pages t) | Some e \<Rightarrow> Inl e)
            \<and> distinct (map fst (scraped_pages t))
            \<and> int (length (scraped_pages t)) \<le> max_pages
            \<and> (raised t = None \<longrightarrow>
                  urls_to_visit t = [] \<or> int (length (scraped_pages t)) = max_pages)
            \<and> (max_pages = 0 \<longrightarrow> scraped_pages t = [] \<and> requested (trace t) = []
                  \<and> crawl_same_domain W start_url max_pages = Some (Inr [])))
         \<and> (\<forall>s rp bd. max_pages \<le> int (length (scraped_pages s))
               \<longrightarrow> crawl_loop W rp bd max_pages s = Some s)"
proof -
  let ?P = "\<lambda>s. int (length (scraped_pages s)) \<le> max_pages
                 \<and> (max_pages = 0 \<longrightarrow> s = initial_state start_url)"
  have init: "?P (initial_state start_url)" using assms(2) by (simp add: initial_state_def Let_def)
  have step: "?P (loop_body W (load_robots W p) (netloc p) s)"
    if "queue_inv s" "?P s" "loop_cond max_pages s" for s
    using budget_loop_body[OF that(1,3)] that(3) by (auto simp: loop_cond_def)
  from crawl_run_rule[of W start_url p ?P max_pages, OF assms(1) init step]
  obtain t where t: "crawl_run W start_url max_pages = Some (Inr t)" "queue_inv t"
    "int (length (scraped_pages t)) \<le> max_pages" "max_pages = 0 \<longrightarrow> t = initial_state start_url"
    "\<not> loop_cond max_pages t" by blast
  from t(1) have csd: "crawl_same_domain W start_url max_pages
      = Some (case raised t of None \<Rightarrow> Inr (scraped_pages t) | Some e \<Rightarrow> Inl e)"
    by (simp add: crawl_same_domain_def)
  from t(2) have dist: "distinct (map fst (scraped_pages t))" by (simp add: queue_inv_def)
  from t(3,5) have fin: "raised t = None \<longrightarrow>
      urls_to_visit t = [] \<or> int (length (scraped_pages t)) = max_pages"
    by (auto simp: loop_cond_def)
  from t(4) csd have zero: "max_pages = 0 \<longrightarrow> scraped_pages t = [] \<and> requested (trace t) = []
      \<and> crawl_same_domain W start_url max_pages = Some (Inr [])"
    by (auto simp: initial_state_def Let_def)
  have stop: "\<forall>s rp bd. max_pages \<le> int (length (scraped_pages s))
               \<longrightarrow> crawl_loop W rp bd max_pages s = Some s"
  proof (intro allI impI)
    fix s :: crawl_state and rp :: robot_parser and bd :: string
    assume "max_pages \<le> int (length (scraped_pages s))"
    then show "crawl_loop W rp bd max_pages s = Some s"
      by (subst crawl_loop.simps) (simp add: loop_cond_def)
  qed
  show ?thesis
    apply (rule conjI)
     apply (rule exI[of _ t])
     apply (intro conjI)
          apply (rule t(1))
         apply (rule csd)
        apply (rule dist)
       apply (rule t(3))
      apply (rule fin)
     apply (rule zero)
    apply (rule stop)
    done
qed

lemma budget_two_example:
  "crawl_same_domain site ''http://site.test/'' 2
     = Some (Inr [(''http://site.test'', ''A''), (''http://site.test/b'', ''B'')])"
  by (simp add: crawl_loop.simps site_defs crawl_defs)

theorem budget_respected_witness:
  "urlparse site ''http://site.test/'' = Some \<lparr>scheme = ''http'', netloc = ''site.test''\<rparr>
   \<and> (0::int) \<le> 2
   \<and> (\<exists>t. crawl_run site ''http://site.test/'' 2 = Some (Inr t)
            \<and> crawl_same_domain site ''http://site.test/'' 2 = Some (Inr (scraped_pages t))
            \<and> distinct (map fst (scraped_pages t))
            \<and> int (length (scraped_pages t)) \<le> 2
            \<and> scraped_pages t = [(''http://site.test'', ''A''), (''http://site.test/b'', ''B'')])
   \<and> (\<exists>t. crawl_run site ''http://site.test/'' 0 = Some (Inr t)
            \<and> scraped_pages t = [] \<and> requested (trace t) = [])
   \<and> crawl_loop site RobotFileParser ''site.test'' 0 (initial_state ''http://site.test/'')
         = Some (initial_state ''http://site.test/'')"
proof -
  have h2: "(0::int) \<le> 2" and h0: "(0::int) \<le> 0" by simp_all
  from budget_respected[OF site_urlparse_seed h2] obtain t where
    t: "crawl_run site ''http://site.test/'' 2 = Some (Inr t)"
      "crawl_same_domain site ''http://site.test/'' 2
         = Some (case raised t of None \<Rightarrow> Inr (scraped_pages t) | Some e \<Rightarrow> Inl e)"
      "distinct (map fst (scraped_pages t))" "int (length (scraped_pages t)) \<le> 2"
    by blast
  from t(2) have sc: "scraped_pages t = [(''http://site.test'', ''A''), (''http://site.test/b'', ''B'')]"
    by (cases "raised t") (simp_all add: budget_two_example)
  then have "crawl_same_domain site ''http://site.test/'' 2 = Some (Inr (scraped_pages t))"
    by (simp add: budget_two_example)
  with sc t(1,3,4) have two: "\<exists>t. crawl_run site ''http://site.test/'' 2 = Some (Inr t)
            \<and> crawl_same_domain site ''http://site.test/'' 2 = Some (Inr (scraped_pages t))
            \<and> distinct (map fst (scraped_pages t))
            \<and> int (length (scraped_pages t)) \<le> 2
            \<and> scraped_pages t = [(''http://site.test'', ''A''), (''http://site.test/b'', ''B'')]"
    by blast
  from budget_respected[OF site_urlparse_seed h0] have
    zero: "\<exists>t. crawl_run site ''http://site.test/'' 0 = Some (Inr t)
            \<and> scraped_pages t = [] \<and> requested (trace t) = []"
    and stop: "\<forall>s rp bd. 0 \<le> int (length (scraped_pages s))
               \<longrightarrow> crawl_loop site rp bd 0 s = Some s"
    by blast+
  from stop have "crawl_loop site RobotFileParser ''site.test'' 0 (initial_state ''http://site.test/'')
         = Some (initial_state ''http://site.test/'')" by simp
  with two zero site_urlparse_seed h2 show ?thesis by blast
qed

lemma budget_zero_example:
  "crawl_run site ''http://site.test/'' 0 = Some (Inr (initial_state ''http://site.test/''))"
  by (simp add: crawl_loop.simps site_defs crawl_defs)

lemma negative_budget_example:
  "crawl_same_domain site ''http://site.test/'' (- 1) = Some (Inr [])"
  by (simp add: crawl_loop.simps site_defs crawl_defs)

section \<open>The synthetic site's \<open>urlparse\<close> is stable\<close>

lemma rstrip_slash_Nil_iff: "rstrip_slash s = [] \<longleftrightarrow> (\<forall>c\<in>set s. c = CHR ''/'')"
  by (simp add: rstrip_slash_def dropWhile_eq_Nil_conv)

lemma rstrip_slash_Nil [simp]: "rstrip_slash [] = []"
  by (simp add: rstrip_slash_def)

lemma rstrip_slash_Cons:
  "rstrip_slash (c # cs) =
     (if rstrip_slash cs = [] \<and> c = CHR ''/'' then [] else c # rstrip_slash cs)"
  by (auto simp: rstrip_slash_def dropWhile_append dropWhile_eq_Nil_conv)

lemma rstrip_slash_keep:
  "c \<noteq> CHR ''/'' \<Longrightarrow> rstrip_slash (a @ c # b) = a @ c # rstrip_slash b"
  by (induction a) (simp_all add: rstrip_slash_Cons)

lemma takeWhile_rstrip_slash:
  "\<not> P (CHR ''/'') \<Longrightarrow> takeWhile P (rstrip_slash s) = takeWhile P s"
  by (induction s) (simp_all add: rstrip_slash_Cons)

lemma host_of_slashes:
  "host_of (CHR ''/'' # CHR ''/'' # r2) = takeWhile (\<lambda>c. c \<notin> {CHR ''/'', CHR ''?'', CHR ''#''}) r2"
  by (simp add: host_of_def startswith_def)

lemma host_of_other: "\<not> startswith rest ''//'' \<Longrightarrow> host_of rest = []"
  by (simp add: host_of_def)

lemma rstrip_slash_two:
  "rstrip_slash (CHR ''/'' # CHR ''/'' # r2) =
     (if rstrip_slash r2 = [] then [] else CHR ''/'' # CHR ''/'' # rstrip_slash r2)"
  by (simp add: rstrip_slash_Cons)

lemma startswith_two:
  "startswith s ''//'' \<longleftrightarrow> (\<exists>r. s = CHR ''/'' # CHR ''/'' # r)"
proof (cases s)
  case Nil
  then show ?thesis by (simp add: startswith_def)
next
  case (Cons a s1)
  then show ?thesis by (cases s1) (auto simp: startswith_def)
qed


lemma rstrip_slash_prefix: "\<exists>z. s = rstrip_slash s @ z"
proof -
  have "rev s = takeWhile (\<lambda>c. c = CHR ''/'') (rev s) @ dropWhile (\<lambda>c. c = CHR ''/'') (rev s)"
    by simp
  then have "s = rev (dropWhile (\<lambda>c. c = CHR ''/'') (rev s)) @ rev (takeWhile (\<lambda>c. c = CHR ''/'') (rev s))"
    by (metis rev_append rev_rev_ident)
  then show ?thesis unfolding rstrip_slash_def by blast
qed

lemma host_of_rstrip_slash: "host_of (rstrip_slash rest) = host_of rest"
proof (cases "startswith rest ''//''")
  case True
  then obtain r2 where rest: "rest = CHR ''/'' # CHR ''/'' # r2" using startswith_two by blast
  show ?thesis
  proof (cases "rstrip_slash r2 = []")
    case True
    then have "\<forall>c\<in>set r2. c = CHR ''/''" by (simp add: rstrip_slash_Nil_iff)
    then have "takeWhile (\<lambda>c. c \<notin> {CHR ''/'', CHR ''?'', CHR ''#''}) r2 = []"
      by (cases r2) simp_all
    moreover from True have "rstrip_slash rest = []" unfolding rest rstrip_slash_two by simp
    moreover have "host_of [] = []" by (simp add: host_of_def startswith_def)
    ultimately show ?thesis unfolding rest by (simp add: host_of_slashes)
  next
    case False
    then have "rstrip_slash rest = CHR ''/'' # CHR ''/'' # rstrip_slash r2"
      unfolding rest rstrip_slash_two by simp
    then show ?thesis unfolding rest by (simp add: host_of_slashes takeWhile_rstrip_slash)
  qed
next
  case False
  have "\<not> startswith (rstrip_slash rest) ''//''"
  proof
    assume "startswith (rstrip_slash rest) ''//''"
    then obtain r where r: "rstrip_slash rest = CHR ''/'' # CHR ''/'' # r"
      using startswith_two by blast
    obtain z where "rest = rstrip_slash rest @ z" using rstrip_slash_prefix by blast
    then have "rest = CHR ''/'' # CHR ''/'' # (r @ z)" unfolding r by simp
    then have "startswith rest ''//''" using startswith_two by blast
    with False show False by simp
  qed
  with False show ?thesis by (simp add: host_of_other)
qed


lemma simple_urlparse_rstrip_slash:
  "\<exists>q. simple_urlparse (rstrip_slash u) = Some q
       \<and> scheme q = scheme (the (simple_urlparse u)) \<and> netloc q = netloc (the (simple_urlparse u))"
proof (cases "CHR '':'' \<in> set u")
  case False
  obtain z where "u = rstrip_slash u @ z" using rstrip_slash_prefix by blast
  then have "set u = set (rstrip_slash u) \<union> set z" by (metis set_append)
  with False have "CHR '':'' \<notin> set (rstrip_slash u)" by blast
  with False show ?thesis by (simp add: simple_urlparse_def)
next
  case True
  from split_list_first[OF True] obtain sch rest where
    u: "u = sch @ CHR '':'' # rest" and n: "CHR '':'' \<notin> set sch" by blast
  have r: "rstrip_slash u = sch @ CHR '':'' # rstrip_slash rest"
    unfolding u by (rule rstrip_slash_keep) simp
  have t: "takeWhile (\<lambda>c. c \<noteq> CHR '':'') (sch @ CHR '':'' # xs) = sch" for xs
    using n by (induction sch) auto
  have 1: "simple_urlparse u = Some \<lparr>scheme = sch, netloc = host_of rest\<rparr>"
    unfolding u by (simp add: simple_urlparse_def t Let_def)
  have 2: "simple_urlparse (rstrip_slash u) = Some \<lparr>scheme = sch, netloc = host_of (rstrip_slash rest)\<rparr>"
    unfolding r by (simp add: simple_urlparse_def t Let_def)
  from 1 2 show ?thesis by (simp add: host_of_rstrip_slash)
qed

lemma site_rstrip_stable: "rstrip_stable site"
  unfolding rstrip_stable_def
proof (intro allI impI)
  fix u p
  assume "urlparse site u = Some p"
  then have "simple_urlparse u = Some p" by (simp add: site_def)
  with simple_urlparse_rstrip_slash[of u]
  show "\<exists>q. urlparse site (rstrip_slash u) = Some q \<and> scheme q = scheme p \<and> netloc q = netloc p"
    by (simp add: site_def)
qed

lemma site_run_trace:
  "map_option (map_sum id trace) (crawl_run site ''http://site.test/'' 4) =
     Some (Inr [Enqueued ''http://site.test'', Popped ''http://site.test'',
         Requested ''http://site.test'', Enqueued ''http://site.test/b'',
         Enqueued ''http://site.test/c'', Slept,
         Popped ''http://site.test/b'', Requested ''http://site.test/b'',
         Enqueued ''http://site.test/d'', Slept,
         Popped ''http://site.test/c'', Requested ''http://site.test/c'',
         Slept, Popped ''http://site.test/d'',
         Requested ''http://site.test/d'', Slept])"
  by (simp add: crawl_loop.simps site_defs crawl_defs)

text \<open>
  C3. When \<open>urlparse\<close> is stable and gives the seed the scheme http or https, every
  URL that the run ever puts on the queue, the seed included, has the scheme http or
  https and exactly the seed's host.
\<close>

theorem domain_containment:
  assumes "rstrip_stable W" and "urlparse W start_url = Some p"
    and "scheme p = ''http'' \<or> scheme p = ''https''"
  shows "\<exists>t. crawl_run W start_url max_pages = Some (Inr t)
           \<and> rstrip_slash start_url \<in> set (enqueued (trace t))
           \<and> set (urls_to_visit t) \<subseteq> set (enqueued (trace t))
           \<and> (\<forall>u\<in>set (enqueued (trace t)).
                 \<exists>q. urlparse W u = Some q \<and> (scheme q = ''http'' \<or> scheme q = ''https'')
                     \<and> netloc q = netloc p)"
proof -
  let ?P = "\<lambda>s. domain_inv W (netloc p) s \<and> rstrip_slash start_url \<in> set (enqueued (trace s))"
  have init: "?P (initial_state start_url)"
    using domain_inv_initial[OF assms] by (simp add: initial_state_def Let_def)
  have step: "?P (loop_body W (load_robots W p) (netloc p) s)"
    if "queue_inv s" "?P s" "loop_cond max_pages s" for s
  proof -
    from that(3) obtain cur rest where q: "urls_to_visit s = cur # rest" by (rule loop_cond_Cons)
    from loop_body_iteration[OF q queue_inv_fresh(4)[OF that(1) q], of W "load_robots W p" "netloc p"]
    obtain new req rec sl where
      "iteration cur rest s new req rec sl (loop_body W (load_robots W p) (netloc p) s)" by blast
    from iteration_enqueued[OF this] that(2)
    have "rstrip_slash start_url \<in> set (enqueued (trace (loop_body W (load_robots W p) (netloc p) s)))"
      by simp
    with domain_inv_loop_body[OF assms(1) that(1) _ that(3), of "netloc p" "load_robots W p"] that(2)
    show ?thesis by blast
  qed
  from crawl_run_rule[of W start_url p ?P max_pages, OF assms(2) init step]
  obtain t where t: "crawl_run W start_url max_pages = Some (Inr t)" "queue_inv t"
    "domain_inv W (netloc p) t" "rstrip_slash start_url \<in> set (enqueued (trace t))" by blast
  from t(2) have "set (urls_to_visit t) \<subseteq> set (enqueued (trace t))"
    unfolding queue_inv_def by (metis set_append sup_ge2)
  moreover from t(3) have "\<forall>u\<in>set (enqueued (trace t)).
      \<exists>q. urlparse W u = Some q \<and> (scheme q = ''http'' \<or> scheme q = ''https'') \<and> netloc q = netloc p"
    unfolding domain_inv_def url_in_domain_def is_same_domain_def by blast
  ultimately show ?thesis using t(1,4) by blast
qed

theorem domain_containment_witness:
  "rstrip_stable site
   \<and> urlparse site ''http://site.test/'' = Some \<lparr>scheme = ''http'', netloc = ''site.test''\<rparr>
   \<and> (\<exists>t. crawl_run site ''http://site.test/'' 4 = Some (Inr t)
          \<and> enqueued (trace t) = [''http://site.test'', ''http://site.test/b'',
                                   ''http://site.test/c'', ''http://site.test/d'']
          \<and> (\<exists>q. urlparse site ''http://site.test/d'' = Some q
                  \<and> (scheme q = ''http'' \<or> scheme q = ''https'') \<and> netloc q = ''site.test''))"
proof -
  have h: "scheme \<lparr>scheme = ''http'', netloc = ''site.test''\<rparr> = ''http''
         \<or> scheme \<lparr>scheme = ''http'', netloc = ''site.test''\<rparr> = ''https''" by simp
  from domain_containment[OF site_rstrip_stable site_urlparse_seed h, of 4] obtain t where
    t: "crawl_run site ''http://site.test/'' 4 = Some (Inr t)"
      "\<forall>u\<in>set (enqueued (trace t)).
         \<exists>q. urlparse site u = Some q \<and> (scheme q = ''http'' \<or> scheme q = ''https'')
             \<and> netloc q = ''site.test''"
    by auto
  from t(1) site_run_trace have e: "enqueued (trace t) = [''http://site.test'', ''http://site.test/b'',
                                   ''http://site.test/c'', ''http://site.test/d'']"
    by simp
  with t(2) have "\<exists>q. urlparse site ''http://site.test/d'' = Some q
                  \<and> (scheme q = ''http'' \<or> scheme q = ''https'') \<and> netloc q = ''site.test''"
    by simp
  with t(1) e site_rstrip_stable site_urlparse_seed show ?thesis by blast
qed

section \<open>Breadth-first visits\<close>

lemma site_run_depth:
  "map_option (map_sum id (\<lambda>t. map (depth t) (popped (trace t))))
     (crawl_run site ''http://site.test/'' 4) = Some (Inr [0, 1, 1, 2])"
  by (simp add: crawl_loop.simps site_defs crawl_defs)

text \<open>
  C6. The queue is first in, first out: the URLs are popped in the order in which they
  were enqueued. Hence the visits are in breadth-first order: in the sequence of popped
  URLs the link depth never decreases, where the seed has depth 0 and a URL found on a
  page of depth k has depth k + 1.
\<close>

theorem breadth_first_order:
  assumes "urlparse W start_url = Some p"
  shows "\<exists>t. crawl_run W start_url max_pages = Some (Inr t)
           \<and> popped (trace t) @ urls_to_visit t = enqueued (trace t)
           \<and> sorted (map (depth t) (popped (trace t)))
           \<and> depth t (rstrip_slash start_url) = 0"
proof -
  let ?P = "\<lambda>s. bfs_inv s \<and> depth s (rstrip_slash start_url) = 0
                 \<and> rstrip_slash start_url \<in> seen_urls s"
  have init: "?P (initial_state start_url)"
    using bfs_inv_initial[of start_url] by (simp add: initial_state_def Let_def)
  have step: "?P (loop_body W (load_robots W p) (netloc p) s)"
    if "queue_inv s" "?P s" "loop_cond max_pages s" for s
  proof -
    define s' where "s' = loop_body W (load_robots W p) (netloc p) s"
    from that(2) have seed: "depth s (rstrip_slash start_url) = 0"
      "rstrip_slash start_url \<in> seen_urls s" and bfs: "bfs_inv s" by simp_all
    from that(3) obtain cur rest where q: "urls_to_visit s = cur # rest" by (rule loop_cond_Cons)
    from loop_body_iteration[OF q queue_inv_fresh(4)[OF that(1) q], of W "load_robots W p" "netloc p"]
    obtain new req rec sl where it: "iteration cur rest s new req rec sl s'"
      unfolding s'_def by blast
    from it have d: "depth s' = (\<lambda>u. if u \<in> set new then Suc (depth s cur) else depth s u)"
      and nn: "set new \<inter> seen_urls s = {}" and sn: "seen_urls s' = seen_urls s \<union> set new"
      by (simp_all add: iteration_def)
    from nn seed(2) have "rstrip_slash start_url \<notin> set new" by blast
    then have 1: "depth s' (rstrip_slash start_url) = 0" unfolding d using seed(1) by simp
    from sn seed(2) have 2: "rstrip_slash start_url \<in> seen_urls s'" by simp
    have 3: "bfs_inv s'" unfolding s'_def by (rule bfs_inv_loop_body[OF that(1) bfs that(3)])
    from 1 2 3 show ?thesis unfolding s'_def by simp
  qed
  from crawl_run_rule[of W start_url p ?P max_pages, OF assms init step]
  obtain t where t: "crawl_run W start_url max_pages = Some (Inr t)" "queue_inv t"
    "bfs_inv t" "depth t (rstrip_slash start_url) = 0" by blast
  from t(2) have e: "popped (trace t) @ urls_to_visit t = enqueued (trace t)"
    by (simp add: queue_inv_def)
  from t(3) have "sorted (map (depth t) (popped (trace t) @ urls_to_visit t))"
    unfolding e by (simp add: bfs_inv_def)
  then have "sorted (map (depth t) (popped (trace t)))" by (simp add: sorted_append)
  with t(1,4) e show ?thesis by blast
qed

theorem breadth_first_order_witness:
  "urlparse site ''http://site.test/'' = Some \<lparr>scheme = ''http'', netloc = ''site.test''\<rparr>
   \<and> (\<exists>t. crawl_run site ''http://site.test/'' 4 = Some (Inr t)
          \<and> popped (trace t) = [''http://site.test'', ''http://site.test/b'',
                                 ''http://site.test/c'', ''http://site.test/d'']
          \<and> map (depth t) (popped (trace t)) = [0, 1, 1, 2]
          \<and> sorted (map (depth t) (popped (trace t)))
          \<and> popped (trace t) @ urls_to_visit t = enqueued (trace t))"
proof -
  from breadth_first_order[OF site_urlparse_seed, of 4] obtain t where
    t: "crawl_run site ''http://site.test/'' 4 = Some (Inr t)"
    and fifo: "popped (trace t) @ urls_to_visit t = enqueued (trace t)"
    and sorted: "sorted (map (depth t) (popped (trace t)))" by blast
  have "map_option (map_sum id trace) (Some (Inr t)) = Some (Inr (trace t))" by simp
  with site_run_trace have tr: "trace t =
        [Enqueued ''http://site.test'', Popped ''http://site.test'',
         Requested ''http://site.test'', Enqueued ''http://site.test/b'',
         Enqueued ''http://site.test/c'', Slept,
         Popped ''http://site.test/b'', Requested ''http://site.test/b'',
         Enqueued ''http://site.test/d'', Slept,
         Popped ''http://site.test/c'', Requested ''http://site.test/c'',
         Slept, Popped ''http://site.test/d'',
         Requested ''http://site.test/d'', Slept]"
    unfolding t by simp
  have pop: "popped (trace t) = [''http://site.test'', ''http://site.test/b'',
                                 ''http://site.test/c'', ''http://site.test/d'']"
    unfolding tr by simp
  have "map_option (map_sum id (\<lambda>t. map (depth t) (popped (trace t)))) (Some (Inr t))
          = Some (Inr (map (depth t) (popped (trace t))))" by simp
  with site_run_depth have dep: "map (depth t) (popped (trace t)) = [0, 1, 1, 2]"
    unfolding t by simp
  show ?thesis
    apply (rule conjI)
     apply (rule site_urlparse_seed)
    apply (rule exI[of _ t])
    apply (intro conjI)
        apply (rule t)
       apply (rule pop)
      apply (rule dep)
     apply (rule sorted)
    apply (rule fifo)
    done
qed

section \<open>The recorded title\<close>

lemma extract_links_scraped:
  "scraped_pages (snd (extract_links W bd u hs s)) = scraped_pages s"
  by (induction hs arbitrary: s) (simp_all add: Let_def enqueue_def split: option.splits)

lemma map_of_dict_set: "map_of (dict_set d k v) k = Some v"
  by (induction d) auto

lemma startswith_iff: "startswith s p \<longleftrightarrow> (\<exists>z. s = p @ z)"
proof
  assume "startswith s p"
  then have "s = p @ drop (length p) s"
    unfolding startswith_def by (metis append_take_drop_id)
  then show "\<exists>z. s = p @ z" ..
next
  assume "\<exists>z. s = p @ z"
  then show "startswith s p" unfolding startswith_def by auto
qed

lemma endswith_iff: "endswith s e \<longleftrightarrow> (\<exists>pre. s = pre @ e)"
proof
  assume "endswith s e"
  then have "s = take (length s - length e) s @ e"
    unfolding endswith_def by (metis append_take_drop_id)
  then show "\<exists>pre. s = pre @ e" ..
next
  assume "\<exists>pre. s = pre @ e"
  then show "endswith s e" unfolding endswith_def by auto
qed

lemma find_SomeD: "find P xs = Some x \<Longrightarrow> x \<in> set xs \<and> P x"
  by (induction xs) (auto split: if_splits)

lemma strip_prefixes_None:
  "find (\<lambda>w. w \<noteq> [] \<and> startswith s w) ws = None \<Longrightarrow> strip_prefixes ws s = s"
  by (subst strip_prefixes.simps) simp

lemma strip_prefixes_Some:
  "find (\<lambda>w. w \<noteq> [] \<and> startswith s w) ws = Some w \<Longrightarrow>
   strip_prefixes ws s = strip_prefixes ws (drop (length w) s)"
  by (subst strip_prefixes.simps) simp

lemma strip_prefixes_decomp:
  "\<exists>ps. set ps \<subseteq> set ws \<and> s = concat ps @ strip_prefixes ws s"
proof (induction ws s rule: strip_prefixes.induct)
  case (1 ws s)
  show ?case
  proof (cases "find (\<lambda>w. w \<noteq> [] \<and> startswith s w) ws")
    case None
    then have "set [] \<subseteq> set ws \<and> s = concat [] @ strip_prefixes ws s"
      by (simp add: strip_prefixes_None)
    then show ?thesis by blast
  next
    case (Some w)
    from find_SomeD[OF Some] have w: "w \<in> set ws" "startswith s w" by simp_all
    from w(2) have s: "w @ drop (length w) s = s"
      unfolding startswith_def by (metis append_take_drop_id)
    from "1"[OF Some] obtain ps where ps: "set ps \<subseteq> set ws"
      "drop (length w) s = concat ps @ strip_prefixes ws (drop (length w) s)" by blast
    have "concat (w # ps) @ strip_prefixes ws s
        = w @ (concat ps @ strip_prefixes ws (drop (length w) s))"
      by (simp add: strip_prefixes_Some[OF Some])
    also have "\<dots> = w @ drop (length w) s" using ps(2) by simp
    also have "\<dots> = s" by (rule s)
    finally have "s = concat (w # ps) @ strip_prefixes ws s" by simp
    moreover have "set (w # ps) \<subseteq> set ws" using w(1) ps(1) by simp
    ultimately show ?thesis by blast
  qed
qed

lemma strip_prefixes_no_prefix:
  "w \<in> set ws \<Longrightarrow> w \<noteq> [] \<Longrightarrow> \<not> startswith (strip_prefixes ws s) w"
proof (induction ws s rule: strip_prefixes.induct)
  case (1 ws s)
  show ?case
  proof (cases "find (\<lambda>w. w \<noteq> [] \<and> startswith s w) ws")
    case None
    with "1.prems" have "\<not> startswith s w" by (auto simp: find_None_iff)
    with None show ?thesis by (simp add: strip_prefixes_None)
  next
    case (Some v)
    from "1.IH"[OF Some "1.prems"] show ?thesis by (simp add: strip_prefixes_Some[OF Some])
  qed
qed

lemma WHITESPACE_nonempty: "w \<in> set WHITESPACE \<Longrightarrow> w \<noteq> []"
  by (auto simp: WHITESPACE_def)

lemma py_strip_decomp:
  "\<exists>a b. set a \<subseteq> set WHITESPACE \<and> set b \<subseteq> set WHITESPACE
         \<and> s = concat a @ py_strip s @ concat b"
proof -
  define t where "t = strip_prefixes WHITESPACE s"
  define r where "r = strip_prefixes (map rev WHITESPACE) (rev t)"
  have p: "py_strip s = rev r" by (simp add: py_strip_def t_def r_def)
  from strip_prefixes_decomp[of WHITESPACE s] obtain a where
    a: "set a \<subseteq> set WHITESPACE" "s = concat a @ t" unfolding t_def by blast
  from strip_prefixes_decomp[of "map rev WHITESPACE" "rev t"] obtain c where
    c: "set c \<subseteq> set (map rev WHITESPACE)" "rev t = concat c @ r" unfolding r_def by blast
  from c(2) have "rev (rev t) = rev (concat c @ r)" by simp
  then have t: "t = rev r @ concat (map rev (rev c))" by (simp add: rev_concat)
  have "set (map rev (rev c)) \<subseteq> set WHITESPACE"
  proof
    fix x assume "x \<in> set (map rev (rev c))"
    then obtain y where y: "y \<in> set c" "x = rev y" by auto
    with c(1) obtain w where "w \<in> set WHITESPACE" "y = rev w" by auto
    with y(2) show "x \<in> set WHITESPACE" by simp
  qed
  moreover from a(2) t have "s = concat a @ py_strip s @ concat (map rev (rev c))"
    unfolding p by simp
  ultimately show ?thesis using a(1) by blast
qed

lemma py_strip_ends:
  assumes w: "w \<in> set WHITESPACE"
  shows "\<not> startswith (py_strip s) w \<and> \<not> endswith (py_strip s) w"
proof -
  define t where "t = strip_prefixes WHITESPACE s"
  define r where "r = strip_prefixes (map rev WHITESPACE) (rev t)"
  have p: "py_strip s = rev r" by (simp add: py_strip_def t_def r_def)
  have ne: "w \<noteq> []" by (rule WHITESPACE_nonempty[OF w])
  from strip_prefixes_decomp[of "map rev WHITESPACE" "rev t"] obtain c where
    "rev t = concat c @ r" unfolding r_def by blast
  then have "rev (rev t) = rev (concat c @ r)" by simp
  then have t: "t = rev r @ rev (concat c)" by simp
  have 1: "\<not> startswith (rev r) w"
  proof
    assume "startswith (rev r) w"
    then obtain z where "rev r = w @ z" unfolding startswith_iff by blast
    with t have "t = w @ (z @ rev (concat c))" by simp
    then have "startswith t w" unfolding startswith_iff by blast
    moreover have "\<not> startswith t w"
      unfolding t_def by (rule strip_prefixes_no_prefix[OF w ne])
    ultimately show False by simp
  qed
  have 2: "\<not> endswith (rev r) w"
  proof
    assume "endswith (rev r) w"
    then obtain pre where "rev r = pre @ w" unfolding endswith_iff by blast
    then have "rev (rev r) = rev (pre @ w)" by simp
    then have "r = rev w @ rev pre" by simp
    then have "startswith r (rev w)" unfolding startswith_iff by blast
    moreover have "\<not> startswith r (rev w)"
      unfolding r_def by (rule strip_prefixes_no_prefix) (use w ne in auto)
    ultimately show False by simp
  qed
  from 1 2 show ?thesis unfolding p by simp
qed

lemma try_body_records:
  assumes "session_get W (length (requested (trace st))) u = GetResponse r"
    and "status_code r = 200"
    and "py_in ''text/html'' (py_lower (case content_type_header r of None \<Rightarrow> [] | Some v \<Rightarrow> v))"
    and "BeautifulSoup W (html_content_cleaned (resp_text r)) = Some sp"
  shows "map_of (scraped_pages (snd (try_body W bd u st))) u = Some (title_text (find_title sp))"
  using assms by (simp add: try_body_def Let_def extract_links_scraped map_of_dict_set)

text \<open>
  C10. The title recorded for a fetched page is \<open>title_text\<close> of what
  \<open>soup.find('title')\<close> returns. It is the sentinel when there is no title element
  and when the element has no string (or an empty one); otherwise it is the string
  without its leading and trailing white space: what is cut off are white space
  characters, and the rest neither begins nor ends with one.
\<close>

theorem recorded_title:
  "title_text None = NO_TITLE
   \<and> title_text (Some None) = NO_TITLE
   \<and> title_text (Some (Some [])) = NO_TITLE
   \<and> (s \<noteq> [] \<longrightarrow> title_text (Some (Some s)) = py_strip s)
   \<and> (\<exists>a b. set a \<subseteq> set WHITESPACE \<and> set b \<subseteq> set WHITESPACE
          \<and> s = concat a @ py_strip s @ concat b)
   \<and> (\<forall>w\<in>set WHITESPACE. \<not> startswith (py_strip s) w \<and> \<not> endswith (py_strip s) w)
   \<and> (session_get W (length (requested (trace st))) u = GetResponse r
        \<and> status_code r = 200
        \<and> py_in ''text/html'' (py_lower (case content_type_header r of None \<Rightarrow> [] | Some v \<Rightarrow> v))
        \<and> BeautifulSoup W (html_content_cleaned (resp_text r)) = Some sp
        \<longrightarrow> map_of (scraped_pages (snd (try_body W bd u st))) u = Some (title_text (find_title sp)))"
proof -
  have "title_text None = NO_TITLE" "title_text (Some None) = NO_TITLE"
    "title_text (Some (Some [])) = NO_TITLE"
    "s \<noteq> [] \<longrightarrow> title_text (Some (Some s)) = py_strip s"
    by (simp_all add: title_text_def)
  moreover have "\<forall>w\<in>set WHITESPACE. \<not> startswith (py_strip s) w \<and> \<not> endswith (py_strip s) w"
    using py_strip_ends[of _ s] by blast
  ultimately show ?thesis
    using py_strip_decomp[of s] try_body_records[of W st u r sp bd] by blast
qed

lemma py_strip_example: "py_strip (CHR 0xE3 # CHR 0x80 # CHR 0x80 # ''B '') = ''B''"
  by (simp add: py_strip_def WHITESPACE_def strip_prefixes.simps startswith_def)

theorem recorded_title_witness:
  "title_text (Some (Some (CHR 0xE3 # CHR 0x80 # CHR 0x80 # ''B ''))) = ''B''
   \<and> \<not> startswith (py_strip (CHR 0xE3 # CHR 0x80 # CHR 0x80 # ''B '')) '' ''
   \<and> \<not> endswith (py_strip (CHR 0xE3 # CHR 0x80 # CHR 0x80 # ''B '')) '' ''
   \<and> map_of (scraped_pages (snd (try_body site ''site.test'' ''http://site.test/b''
                 (initial_state ''http://site.test/b'')))) ''http://site.test/b'' = Some ''B''"
proof -
  let ?s = "CHR 0xE3 # CHR 0x80 # CHR 0x80 # ''B ''"
  let ?r = "\<lparr>status_code = 200, content_type_header = Some ''text/html; charset=UTF-8'',
             resp_text = ''B''\<rparr>"
  let ?sp = "\<lparr>find_title = Some (Some ?s), find_all_a_href = [''/d#top'', ''/c'']\<rparr>"
  note th = recorded_title[of ?s site "initial_state ''http://site.test/b''"
      "''http://site.test/b''" ?r ?sp "''site.test''"]
  have ne: "?s \<noteq> []" by simp
  have sp: "'' '' \<in> set WHITESPACE" by (simp add: WHITESPACE_def)
  have h: "session_get site (length (requested (trace (initial_state ''http://site.test/b''))))
             ''http://site.test/b'' = GetResponse ?r
      \<and> status_code ?r = 200
      \<and> py_in ''text/html'' (py_lower (case content_type_header ?r of None \<Rightarrow> [] | Some v \<Rightarrow> v))
      \<and> BeautifulSoup site (html_content_cleaned (resp_text ?r)) = Some ?sp"
    by (simp add: site_defs initial_state_def Let_def py_lower_def lower_char_def
        startswith_def html_content_cleaned_def re_sub_empty_def)
  from th have t: "?s \<noteq> [] \<longrightarrow> title_text (Some (Some ?s)) = py_strip ?s" by (elim conjE)
  from th have e: "\<forall>w\<in>set WHITESPACE. \<not> startswith (py_strip ?s) w \<and> \<not> endswith (py_strip ?s) w"
    by (elim conjE)
  from th have m: "session_get site (length (requested (trace (initial_state ''http://site.test/b''))))
             ''http://site.test/b'' = GetResponse ?r
      \<and> status_code ?r = 200
      \<and> py_in ''text/html'' (py_lower (case content_type_header ?r of None \<Rightarrow> [] | Some v \<Rightarrow> v))
      \<and> BeautifulSoup site (html_content_cleaned (resp_text ?r)) = Some ?sp
      \<longrightarrow> map_of (scraped_pages (snd (try_body site ''site.test'' ''http://site.test/b''
                 (initial_state ''http://site.test/b'')))) ''http://site.test/b''
          = Some (title_text (find_title ?sp))"
    by (elim conjE)
  have 1: "title_text (Some (Some ?s)) = ''B''"
    using mp[OF t ne] by (simp add: py_strip_example)
  have 2: "\<not> startswith (py_strip ?s) '' ''" "\<not> endswith (py_strip ?s) '' ''"
    using bspec[OF e sp] by simp_all
  have 3: "map_of (scraped_pages (snd (try_body site ''site.test'' ''http://site.test/b''
                 (initial_state ''http://site.test/b'')))) ''http://site.test/b'' = Some ''B''"
    using mp[OF m h] 1 by simp
  show ?thesis
    apply (intro conjI)
       apply (rule 1)
      apply (rule 2(1))
     apply (rule 2(2))
    apply (rule 3)
    done
qed

section \<open>HTML comments\<close>

lemma re_sub_empty_Nil: "re_sub_empty [] s = s"
  by (induction s) (simp_all add: re_sub_empty_def)

text \<open>
  C8. The pattern of line 101 is empty, so the substitution returns the decoded text
  as it is: the parser receives the comments of the page.
\<close>

theorem comments_not_removed:
  "html_content_cleaned html_content = html_content
   \<and> py_in ''<!--'' (html_content_cleaned ''<!-- a --><title>T</title>'')"
  by (simp add: html_content_cleaned_def re_sub_empty_Nil startswith_def)

section \<open>The extension filter\<close>

lemma loop_body_excluded:
  assumes "urls_to_visit s = u # rest" and "is_excluded u"
  shows "loop_body W rp bd s = s\<lparr>urls_to_visit := rest, trace := trace s @ [Popped u]\<rparr>"
  using assms by (simp add: loop_body_def Let_def)

lemma doc_PDF_excluded: "is_excluded ''https://x.com/doc.PDF''"
  by (simp add: is_excluded_def EXCLUDED_EXTENSIONS_def endswith_def py_lower_def lower_char_def)

lemma page_not_excluded: "\<not> is_excluded ''https://x.com/page''"
  by (simp add: is_excluded_def EXCLUDED_EXTENSIONS_def endswith_def py_lower_def lower_char_def)

text \<open>
  The claim C7 as it is written fails: the code tests the whole URL string, not its
  path. A URL whose path ends in \<open>.pdf\<close> and that has a query string is not excluded,
  and a URL whose query string ends in \<open>.pdf\<close> is excluded whatever its path.
\<close>

theorem extension_filter_path_counterexample:
  "path_excluded ''https://x.com/doc.pdf?v=1'' \<and> \<not> is_excluded ''https://x.com/doc.pdf?v=1''
   \<and> is_excluded ''https://x.com/view?f=a.pdf'' \<and> \<not> path_excluded ''https://x.com/view?f=a.pdf''"
  by (simp add: path_excluded_def url_path_def is_excluded_def EXCLUDED_EXTENSIONS_def
      endswith_def py_lower_def lower_char_def startswith_def)

text \<open>
  C7, amended. The filter lower-cases the whole URL string and excludes the URL exactly
  when that string ends with one of the configured suffixes;
  \<open>https://x.com/doc.PDF\<close> is excluded and \<open>https://x.com/page\<close> is not. An excluded
  URL is only popped: no request is made, nothing is recorded, and the loop does not sleep.
\<close>

theorem extension_filter:
  "(is_excluded u \<longleftrightarrow> (\<exists>ext pre. ext \<in> set EXCLUDED_EXTENSIONS \<and> py_lower u = pre @ ext))
   \<and> is_excluded ''https://x.com/doc.PDF''
   \<and> \<not> is_excluded ''https://x.com/page''
   \<and> (urls_to_visit s = u # rest \<and> is_excluded u \<longrightarrow>
         loop_body W rp bd s = s\<lparr>urls_to_visit := rest, trace := trace s @ [Popped u]\<rparr>)"
proof -
  have "is_excluded u \<longleftrightarrow> (\<exists>ext pre. ext \<in> set EXCLUDED_EXTENSIONS \<and> py_lower u = pre @ ext)"
    unfolding is_excluded_def list_ex_iff endswith_iff by blast
  moreover have "urls_to_visit s = u # rest \<and> is_excluded u \<longrightarrow>
         loop_body W rp bd s = s\<lparr>urls_to_visit := rest, trace := trace s @ [Popped u]\<rparr>"
    using loop_body_excluded[of s u rest W rp bd] by blast
  ultimately show ?thesis using doc_PDF_excluded page_not_excluded by blast
qed

theorem extension_filter_witness:
  "is_excluded ''https://x.com/doc.PDF''
   \<and> urls_to_visit (initial_state ''https://x.com/doc.PDF'') = [''https://x.com/doc.PDF'']
   \<and> loop_body site RobotFileParser ''x.com'' (initial_state ''https://x.com/doc.PDF'')
       = (initial_state ''https://x.com/doc.PDF'')
           \<lparr>urls_to_visit := [],
            trace := trace (initial_state ''https://x.com/doc.PDF'') @ [Popped ''https://x.com/doc.PDF'']\<rparr>
   \<and> requested (trace (loop_body site RobotFileParser ''x.com'' (initial_state ''https://x.com/doc.PDF''))) = []
   \<and> scraped_pages (loop_body site RobotFileParser ''x.com'' (initial_state ''https://x.com/doc.PDF'')) = []"
proof -
  have q: "urls_to_visit (initial_state ''https://x.com/doc.PDF'') = [''https://x.com/doc.PDF'']"
    by (simp add: initial_state_def rstrip_slash_def Let_def)
  note th = extension_filter[of "''https://x.com/doc.PDF''" "initial_state ''https://x.com/doc.PDF''"
      "[]" site RobotFileParser "''x.com''"]
  from th have e: "is_excluded ''https://x.com/doc.PDF''" by (elim conjE)
  from th have imp: "urls_to_visit (initial_state ''https://x.com/doc.PDF'') = [''https://x.com/doc.PDF'']
        \<and> is_excluded ''https://x.com/doc.PDF'' \<longrightarrow>
      loop_body site RobotFileParser ''x.com'' (initial_state ''https://x.com/doc.PDF'')
       = (initial_state ''https://x.com/doc.PDF'')
           \<lparr>urls_to_visit := [],
            trace := trace (initial_state ''https://x.com/doc.PDF'') @ [Popped ''https://x.com/doc.PDF'']\<rparr>"
    by (elim conjE)
  have l: "loop_body site RobotFileParser ''x.com'' (initial_state ''https://x.com/doc.PDF'')
       = (initial_state ''https://x.com/doc.PDF'')
           \<lparr>urls_to_visit := [],
            trace := trace (initial_state ''https://x.com/doc.PDF'') @ [Popped ''https://x.com/doc.PDF'']\<rparr>"
    by (rule mp[OF imp conjI[OF q e]])
  have r: "requested (trace (loop_body site RobotFileParser ''x.com'' (initial_state ''https://x.com/doc.PDF''))) = []"
    unfolding l by (simp add: initial_state_def Let_def)
  have s: "scraped_pages (loop_body site RobotFileParser ''x.com'' (initial_state ''https://x.com/doc.PDF'')) = []"
    unfolding l by (simp add: initial_state_def Let_def)
  show ?thesis
    apply (intro conjI)
        apply (rule e)
       apply (rule q)
      apply (rule l)
     apply (rule r)
    apply (rule s)
    done
qed

section \<open>The delay between requests\<close>

lemma loop_body_status_skip:
  assumes "urls_to_visit s = u # rest" and "\<not> is_excluded u"
    and "can_fetch rp USER_AGENT u = Some True"
    and "session_get W (length (requested (trace s))) u = GetResponse r"
    and "status_code r \<noteq> 200"
  shows "loop_body W rp bd s = s\<lparr>urls_to_visit := rest, trace := trace s @ [Popped u, Requested u]\<rparr>"
  using assms by (simp add: loop_body_def try_body_def Let_def)

lemma loop_body_content_type_skip:
  assumes "urls_to_visit s = u # rest" and "\<not> is_excluded u"
    and "can_fetch rp USER_AGENT u = Some True"
    and "session_get W (length (requested (trace s))) u = GetResponse r"
    and "status_code r = 200"
    and "\<not> py_in ''text/html'' (py_lower (case content_type_header r of None \<Rightarrow> [] | Some v \<Rightarrow> v))"
  shows "loop_body W rp bd s = s\<lparr>urls_to_visit := rest, trace := trace s @ [Popped u, Requested u]\<rparr>"
  using assms by (simp add: loop_body_def try_body_def Let_def)

text \<open>
  C9. A page links to a URL that answers 404 and to page C. The request for the 404 URL
  is followed at once by the next pop: the \<open>continue\<close> of line 84 skips the
  \<open>time.sleep\<close> of line 139. (The same holds for the \<open>continue\<close> of line 90.)
\<close>

theorem status_skip_without_delay:
  "map_option (map_sum id trace) (crawl_run site ''http://site.test/idx'' 4) =
     Some (Inr [Enqueued ''http://site.test/idx'', Popped ''http://site.test/idx'',
                Requested ''http://site.test/idx'',
                Enqueued ''http://site.test/missing'', Enqueued ''http://site.test/c'', Slept,
                Popped ''http://site.test/missing'', Requested ''http://site.test/missing'',
                Popped ''http://site.test/c'', Requested ''http://site.test/c'', Slept])"
  by (simp add: crawl_loop.simps site_defs crawl_defs)

section \<open>A robots.txt that cannot be loaded\<close>

lemma read_raises_denies:
  assumes "urlopen_robots W (robots_url p) = FetchRaises"
  shows "can_fetch (load_robots W p) useragent url = Some False"
  using assms by (simp add: load_robots_def read_def RobotFileParser_def can_fetch_def)

lemma read_server_error_denies:
  assumes "urlopen_robots W (robots_url p) = HTTPError code" and "500 \<le> code"
  shows "can_fetch (load_robots W p) useragent url = Some False"
  using assms by (simp add: load_robots_def read_def RobotFileParser_def can_fetch_def)

lemma read_not_found_allows:
  assumes "urlopen_robots W (robots_url p) = HTTPError 404"
  shows "can_fetch (load_robots W p) useragent url = Some True"
  using assms by (simp add: load_robots_def read_def RobotFileParser_def can_fetch_def)

text \<open>
  C5. When \<open>read\<close> raises, the \<open>except\<close> clause of line 55 prints a warning and
  leaves the parser as it was created. \<open>can_fetch\<close> of such a parser returns
  \<open>False\<close> for every URL, so the seed is popped and skipped, nothing is requested and
  the result is empty.
\<close>

theorem robots_failure_blocks_crawl:
  "can_fetch (load_robots site_robots_down \<lparr>scheme = ''http'', netloc = ''site.test''\<rparr>)
        USER_AGENT ''http://site.test'' = Some False
   \<and> map_option (map_sum id (\<lambda>t. (scraped_pages t, trace t)))
        (crawl_run site_robots_down ''http://site.test/'' 4)
       = Some (Inr ([], [Enqueued ''http://site.test'', Popped ''http://site.test'']))
   \<and> crawl_same_domain site_robots_down ''http://site.test/'' 4 = Some (Inr [])"
  by (simp add: crawl_loop.simps site_robots_down_def site_defs crawl_defs)

section \<open>Failures of single pages\<close>

lemma extract_links_raised: "raised (snd (extract_links W bd u hs s)) = raised s"
  by (induction hs arbitrary: s) (simp_all add: Let_def enqueue_def split: option.splits)

lemma try_body_raised: "raised (snd (try_body W bd u s)) = raised s"
  by (simp add: try_body_def Let_def extract_links_raised split: get_result.splits option.splits)

lemma loop_body_raised:
  assumes q: "urls_to_visit s = u # rest"
  shows "raised (loop_body W rp bd s) =
           (if \<not> is_excluded u \<and> can_fetch rp USER_AGENT u = None then Some OtherException
            else raised s)"
proof -
  define s1 where "s1 = s\<lparr>urls_to_visit := rest, trace := trace s @ [Popped u]\<rparr>"
  obtain fl s2 where t: "try_body W bd u s1 = (fl, s2)" by (cases "try_body W bd u s1")
  from try_body_raised[of W bd u s1] t have "raised s2 = raised s" by (simp add: s1_def)
  then have "raised (case try_body W bd u s1 of (Continued, s2) \<Rightarrow> s2 | (fl, s2) \<Rightarrow> sleep s2)
      = raised s"
    unfolding t by (cases fl) (simp_all add: sleep_def)
  then show ?thesis
    using loop_body_Cons[OF q, of W rp bd] by (simp add: s1_def Let_def)
qed

lemma loop_body_fetch_fails:
  assumes "urls_to_visit s = u # rest" and "\<not> is_excluded u"
    and "can_fetch rp USER_AGENT u = Some True"
    and "fetch_fails W (length (requested (trace s))) u"
  shows "loop_body W rp bd s =
           s\<lparr>urls_to_visit := rest, trace := trace s @ [Popped u, Requested u, Slept]\<rparr>"
  using assms
  by (auto simp: loop_body_def try_body_def Let_def fetch_fails_def sleep_def
      split: get_result.splits)

lemma extract_links_ends:
  "fst (extract_links W bd u hs s) = Completed
   \<or> fst (extract_links W bd u hs s) = Raised OtherException"
  by (induction hs arbitrary: s) (simp_all add: Let_def split: option.splits)

lemma loop_body_page_parsed:
  assumes q: "urls_to_visit s = u # rest" and ex: "\<not> is_excluded u"
    and cf: "can_fetch rp USER_AGENT u = Some True"
    and pp: "page_parsed W (length (requested (trace s))) u sp"
  shows "raised (loop_body W rp bd s) = raised s"
    and "map_of (scraped_pages (loop_body W rp bd s)) u = Some (title_text (find_title sp))"
    and "last (trace (loop_body W rp bd s)) = Slept"
    and "length (scraped_pages (loop_body W rp bd s)) =
           (if u \<in> set (map fst (scraped_pages s)) then length (scraped_pages s)
            else Suc (length (scraped_pages s)))"
    and "fst (try_body W bd u (s\<lparr>urls_to_visit := rest, trace := trace s @ [Popped u]\<rparr>))
           = Completed
         \<or> fst (try_body W bd u (s\<lparr>urls_to_visit := rest, trace := trace s @ [Popped u]\<rparr>))
           = Raised OtherException"
proof -
  define s1 where "s1 = s\<lparr>urls_to_visit := rest, trace := trace s @ [Popped u]\<rparr>"
  define s3 where "s3 = s1\<lparr>trace := trace s1 @ [Requested u],
      scraped_pages := dict_set (scraped_pages s1) u (title_text (find_title sp))\<rparr>"
  define r where "r = extract_links W bd u (find_all_a_href sp) s3"
  from pp have tb: "try_body W bd u s1 = r"
    by (auto simp: page_parsed_def try_body_def Let_def s1_def s3_def r_def
        split: get_result.splits)
  have "fst r \<noteq> Continued" unfolding r_def by (rule extract_links_flow)
  then have "(case r of (Continued, s2) \<Rightarrow> s2 | (fl, s2) \<Rightarrow> sleep s2) = sleep (snd r)"
    by (cases r; cases "fst r") simp_all
  with loop_body_Cons[OF q, of W rp bd] ex cf tb
  have lb: "loop_body W rp bd s = sleep (snd r)" by (simp add: s1_def Let_def)
  show "raised (loop_body W rp bd s) = raised s"
    using cf ex by (simp add: loop_body_raised[OF q])
  have "scraped_pages (snd r) = scraped_pages s3" unfolding r_def by (rule extract_links_scraped)
  then have sc: "scraped_pages (loop_body W rp bd s)
      = dict_set (scraped_pages s) u (title_text (find_title sp))"
    unfolding lb by (simp add: sleep_def s3_def s1_def)
  show "map_of (scraped_pages (loop_body W rp bd s)) u = Some (title_text (find_title sp))"
    unfolding sc by (rule map_of_dict_set)
  show "last (trace (loop_body W rp bd s)) = Slept" unfolding lb by (simp add: sleep_def)
  show "length (scraped_pages (loop_body W rp bd s)) =
           (if u \<in> set (map fst (scraped_pages s)) then length (scraped_pages s)
            else Suc (length (scraped_pages s)))"
    unfolding sc by (rule length_dict_set)
  from extract_links_ends[of W bd u "find_all_a_href sp" s3]
  show "fst (try_body W bd u (s\<lparr>urls_to_visit := rest, trace := trace s @ [Popped u]\<rparr>))
           = Completed
         \<or> fst (try_body W bd u (s\<lparr>urls_to_visit := rest, trace := trace s @ [Popped u]\<rparr>))
           = Raised OtherException"
    using tb unfolding r_def s1_def by simp
qed

lemma robots_total_no_raise:
  assumes total: "\<forall>u. can_fetch rp USER_AGENT u \<noteq> None"
    and "raised s = None" and c: "loop_cond max_pages s"
  shows "raised (loop_body W rp bd s) = None"
proof -
  from c obtain cur rest where q: "urls_to_visit s = cur # rest" by (rule loop_cond_Cons)
  from total have "can_fetch rp USER_AGENT cur \<noteq> None" by blast
  with assms(2) show ?thesis by (simp add: loop_body_raised[OF q])
qed

lemma site_urlparse_down:
  "urlparse site ''http://site.test/down'' = Some \<lparr>scheme = ''http'', netloc = ''site.test''\<rparr>"
  by (simp add: site_defs startswith_def)

lemma site_down_run:
  "map_option (map_sum id (\<lambda>t. (urls_to_visit t, scraped_pages t, trace t)))
     (crawl_run site ''http://site.test/down'' 4)
   = Some (Inr ([], [], [Enqueued ''http://site.test/down'', Popped ''http://site.test/down'',
                         Requested ''http://site.test/down'', Slept]))"
  by (simp add: crawl_loop.simps site_defs crawl_defs)

lemma site_robots_total:
  "can_fetch (load_robots site p) useragent url = Some True"
  by (simp add: site_def load_robots_def read_def RobotFileParser_def can_fetch_def)

text \<open>
  The claim C4 as it is written fails in two ways. A page is recorded before its links
  are read (line 109), so when \<open>urljoin\<close> raises on one of its links the exception is
  caught but the page keeps its entry in the result and has used one unit of the budget.
  And the robots check of line 71 is not inside the \<open>try\<close> statement: when
  \<open>can_fetch\<close> raises, as it does for the seed \<open>http://site.test%5B/\<close>, the exception
  leaves \<open>crawl_same_domain\<close>.
\<close>

theorem failed_page_keeps_entry_counterexample:
  "fst (try_body site ''site.test'' ''http://site.test/broken''
          (initial_state ''http://site.test/broken'')) = Raised OtherException
   \<and> scraped_pages (initial_state ''http://site.test/broken'') = []
   \<and> scraped_pages (snd (try_body site ''site.test'' ''http://site.test/broken''
          (initial_state ''http://site.test/broken''))) = [(''http://site.test/broken'', ''X'')]
   \<and> crawl_same_domain site ''http://site.test/broken'' 1
       = Some (Inr [(''http://site.test/broken'', ''X'')])
   \<and> crawl_same_domain site_strict_robots ''http://site.test%5B/'' 4 = Some (Inl OtherException)"
  by (simp add: crawl_loop.simps site_strict_robots_def site_defs crawl_defs)

text \<open>
  C4, amended. An exception raised inside the \<open>try\<close> statement while a URL is
  processed never leaves the loop body. A URL whose \<open>session.get\<close> raises, or whose
  HTML the parser rejects, gets no entry in the result and uses no budget: the iteration
  only pops it, requests it and sleeps, and the loop goes on with the rest of the queue.
  Once the page of a URL is parsed, its entry is in the result whatever happens while its
  links are read: the link loop runs to its end or raises, an exception raised there is
  caught, the entry stays and counts for the budget, the loop sleeps and goes on. The run always ends; when it returns it has an empty queue or a reached
  budget, and it returns whenever the robots check does not raise.
\<close>

theorem failures_are_caught:
  assumes "urlparse W start_url = Some p"
  shows "(\<exists>t. crawl_run W start_url max_pages = Some (Inr t)
            \<and> (raised t = None \<longrightarrow>
                  urls_to_visit t = [] \<or> max_pages \<le> int (length (scraped_pages t)))
            \<and> ((\<forall>u. can_fetch (load_robots W p) USER_AGENT u \<noteq> None) \<longrightarrow>
                  raised t = None
                  \<and> crawl_same_domain W start_url max_pages = Some (Inr (scraped_pages t))))
         \<and> (urls_to_visit s = u # rest \<and> \<not> is_excluded u
              \<and> can_fetch rp USER_AGENT u = Some True
              \<and> fetch_fails W (length (requested (trace s))) u
            \<longrightarrow> loop_body W rp bd s =
                  s\<lparr>urls_to_visit := rest, trace := trace s @ [Popped u, Requested u, Slept]\<rparr>)
         \<and> (urls_to_visit s = u # rest \<and> \<not> is_excluded u
              \<and> can_fetch rp USER_AGENT u = Some True
              \<and> page_parsed W (length (requested (trace s))) u sp
            \<longrightarrow> (fst (try_body W bd u (s\<lparr>urls_to_visit := rest, trace := trace s @ [Popped u]\<rparr>))
                   = Completed
                 \<or> fst (try_body W bd u (s\<lparr>urls_to_visit := rest, trace := trace s @ [Popped u]\<rparr>))
                   = Raised OtherException)
                \<and> raised (loop_body W rp bd s) = raised s
                \<and> map_of (scraped_pages (loop_body W rp bd s)) u
                    = Some (title_text (find_title sp))
                \<and> length (scraped_pages (loop_body W rp bd s)) =
                     (if u \<in> set (map fst (scraped_pages s)) then length (scraped_pages s)
                      else Suc (length (scraped_pages s)))
                \<and> last (trace (loop_body W rp bd s)) = Slept)"
proof -
  let ?P = "\<lambda>s. (\<forall>u. can_fetch (load_robots W p) USER_AGENT u \<noteq> None) \<longrightarrow> raised s = None"
  have init: "?P (initial_state start_url)" by (simp add: initial_state_def Let_def)
  have step: "?P (loop_body W (load_robots W p) (netloc p) s)"
    if "queue_inv s" "?P s" "loop_cond max_pages s" for s
  proof
    assume total: "\<forall>u. can_fetch (load_robots W p) USER_AGENT u \<noteq> None"
    with that(2) have "raised s = None" by simp
    from robots_total_no_raise[OF total this that(3)]
    show "raised (loop_body W (load_robots W p) (netloc p) s) = None" .
  qed
  from crawl_run_rule[of W start_url p ?P max_pages, OF assms init step]
  obtain t where t: "crawl_run W start_url max_pages = Some (Inr t)" "?P t"
    "\<not> loop_cond max_pages t" by blast
  from t(3) have a: "raised t = None \<longrightarrow>
      urls_to_visit t = [] \<or> max_pages \<le> int (length (scraped_pages t))"
    by (auto simp: loop_cond_def)
  from t(1,2) have b: "(\<forall>u. can_fetch (load_robots W p) USER_AGENT u \<noteq> None) \<longrightarrow>
      raised t = None \<and> crawl_same_domain W start_url max_pages = Some (Inr (scraped_pages t))"
    by (auto simp: crawl_same_domain_def)
  have 1: "\<exists>t. crawl_run W start_url max_pages = Some (Inr t)
            \<and> (raised t = None \<longrightarrow>
                  urls_to_visit t = [] \<or> max_pages \<le> int (length (scraped_pages t)))
            \<and> ((\<forall>u. can_fetch (load_robots W p) USER_AGENT u \<noteq> None) \<longrightarrow>
                  raised t = None
                  \<and> crawl_same_domain W start_url max_pages = Some (Inr (scraped_pages t)))"
    by (rule exI[of _ t]) (intro conjI t(1) a b)
  have 2: "urls_to_visit s = u # rest \<and> \<not> is_excluded u
              \<and> can_fetch rp USER_AGENT u = Some True
              \<and> fetch_fails W (length (requested (trace s))) u
            \<longrightarrow> loop_body W rp bd s =
                  s\<lparr>urls_to_visit := rest, trace := trace s @ [Popped u, Requested u, Slept]\<rparr>"
    using loop_body_fetch_fails[of s u rest rp W bd] by blast
  have 3: "urls_to_visit s = u # rest \<and> \<not> is_excluded u
              \<and> can_fetch rp USER_AGENT u = Some True
              \<and> page_parsed W (length (requested (trace s))) u sp
            \<longrightarrow> (fst (try_body W bd u (s\<lparr>urls_to_visit := rest, trace := trace s @ [Popped u]\<rparr>))
                   = Completed
                 \<or> fst (try_body W bd u (s\<lparr>urls_to_visit := rest, trace := trace s @ [Popped u]\<rparr>))
                   = Raised OtherException)
                \<and> raised (loop_body W rp bd s) = raised s
                \<and> map_of (scraped_pages (loop_body W rp bd s)) u
                    = Some (title_text (find_title sp))
                \<and> length (scraped_pages (loop_body W rp bd s)) =
                     (if u \<in> set (map fst (scraped_pages s)) then length (scraped_pages s)
                      else Suc (length (scraped_pages s)))
                \<and> last (trace (loop_body W rp bd s)) = Slept"
  proof (intro impI, elim conjE)
    assume h: "urls_to_visit s = u # rest" "\<not> is_excluded u"
      "can_fetch rp USER_AGENT u = Some True"
      "page_parsed W (length (requested (trace s))) u sp"
    note l = loop_body_page_parsed[OF h, of bd]
    show "(fst (try_body W bd u (s\<lparr>urls_to_visit := rest, trace := trace s @ [Popped u]\<rparr>))
                   = Completed
                 \<or> fst (try_body W bd u (s\<lparr>urls_to_visit := rest, trace := trace s @ [Popped u]\<rparr>))
                   = Raised OtherException)
                \<and> raised (loop_body W rp bd s) = raised s
                \<and> map_of (scraped_pages (loop_body W rp bd s)) u
                    = Some (title_text (find_title sp))
                \<and> length (scraped_pages (loop_body W rp bd s)) =
                     (if u \<in> set (map fst (scraped_pages s)) then length (scraped_pages s)
                      else Suc (length (scraped_pages s)))
                \<and> last (trace (loop_body W rp bd s)) = Slept"
      by (intro conjI l)
  qed
  from 1 2 3 show ?thesis by (intro conjI)
qed

theorem failures_are_caught_witness:
  "urlparse site ''http://site.test/down'' = Some \<lparr>scheme = ''http'', netloc = ''site.test''\<rparr>
   \<and> fetch_fails site 0 ''http://site.test/down''
   \<and> (\<exists>t. crawl_run site ''http://site.test/down'' 4 = Some (Inr t)
          \<and> raised t = None \<and> urls_to_visit t = [] \<and> scraped_pages t = []
          \<and> crawl_same_domain site ''http://site.test/down'' 4 = Some (Inr []))
   \<and> loop_body site (RobotFileParser\<lparr>allow_all := True\<rparr>) ''site.test''
        (initial_state ''http://site.test/down'')
      = (initial_state ''http://site.test/down'')
          \<lparr>urls_to_visit := [],
           trace := trace (initial_state ''http://site.test/down'')
                      @ [Popped ''http://site.test/down'', Requested ''http://site.test/down'', Slept]\<rparr>
   \<and> page_parsed site 0 ''http://site.test/broken''
        \<lparr>find_title = Some (Some ''X''), find_all_a_href = [''/c'', ''http://['', ''/d'']\<rparr>
   \<and> raised (loop_body site (RobotFileParser\<lparr>allow_all := True\<rparr>) ''site.test''
        (initial_state ''http://site.test/broken'')) = None
   \<and> map_of (scraped_pages (loop_body site (RobotFileParser\<lparr>allow_all := True\<rparr>) ''site.test''
        (initial_state ''http://site.test/broken''))) ''http://site.test/broken'' = Some ''X''
   \<and> length (scraped_pages (loop_body site (RobotFileParser\<lparr>allow_all := True\<rparr>) ''site.test''
        (initial_state ''http://site.test/broken''))) = 1
   \<and> last (trace (loop_body site (RobotFileParser\<lparr>allow_all := True\<rparr>) ''site.test''
        (initial_state ''http://site.test/broken''))) = Slept"
proof -
  let ?rp = "RobotFileParser\<lparr>allow_all := True\<rparr>"
  let ?d = "''http://site.test/down''"
  let ?b = "''http://site.test/broken''"
  let ?sp = "\<lparr>find_title = Some (Some ''X''), find_all_a_href = [''/c'', ''http://['', ''/d'']\<rparr>"
  note th = failures_are_caught[OF site_urlparse_down, of 4 "initial_state ?d" ?d "[]" ?rp
      "''site.test''" ?sp]
  note th2 = failures_are_caught[OF site_urlparse_down, of 4 "initial_state ?b" ?b "[]" ?rp
      "''site.test''" ?sp]
  have total: "\<forall>u. can_fetch (load_robots site \<lparr>scheme = ''http'', netloc = ''site.test''\<rparr>)
      USER_AGENT u \<noteq> None"
    by (simp add: site_robots_total)
  from th obtain t where t: "crawl_run site ?d 4 = Some (Inr t)"
    and tot: "(\<forall>u. can_fetch (load_robots site \<lparr>scheme = ''http'', netloc = ''site.test''\<rparr>)
                USER_AGENT u \<noteq> None) \<longrightarrow>
              raised t = None \<and> crawl_same_domain site ?d 4 = Some (Inr (scraped_pages t))"
    by (elim conjE exE)
  from mp[OF tot total] have r: "raised t = None"
    and c: "crawl_same_domain site ?d 4 = Some (Inr (scraped_pages t))" by simp_all
  have "map_option (map_sum id (\<lambda>t. (urls_to_visit t, scraped_pages t, trace t))) (Some (Inr t))
          = Some (Inr (urls_to_visit t, scraped_pages t, trace t))" by simp
  with site_down_run have e: "urls_to_visit t = []" "scraped_pages t = []" unfolding t by simp_all
  from c e(2) have c': "crawl_same_domain site ?d 4 = Some (Inr [])" by simp
  have ex: "\<exists>t. crawl_run site ?d 4 = Some (Inr t)
          \<and> raised t = None \<and> urls_to_visit t = [] \<and> scraped_pages t = []
          \<and> crawl_same_domain site ?d 4 = Some (Inr [])"
    by (rule exI[of _ t]) (intro conjI t r e c')
  have ff: "fetch_fails site 0 ?d"
    by (simp add: fetch_fails_def site_defs)
  have cf: "can_fetch ?rp USER_AGENT v = Some True" for v
    by (simp add: can_fetch_def RobotFileParser_def)
  have h: "urls_to_visit (initial_state ?d) = ?d # []
        \<and> \<not> is_excluded ?d
        \<and> can_fetch ?rp USER_AGENT ?d = Some True
        \<and> fetch_fails site (length (requested (trace (initial_state ?d)))) ?d"
    using ff cf[of ?d]
    by (simp add: initial_state_def rstrip_slash_def Let_def is_excluded_def EXCLUDED_EXTENSIONS_def
        endswith_def py_lower_def lower_char_def)
  from th have imp: "urls_to_visit (initial_state ?d) = ?d # []
        \<and> \<not> is_excluded ?d
        \<and> can_fetch ?rp USER_AGENT ?d = Some True
        \<and> fetch_fails site (length (requested (trace (initial_state ?d)))) ?d
      \<longrightarrow> loop_body site ?rp ''site.test'' (initial_state ?d)
      = (initial_state ?d)
          \<lparr>urls_to_visit := [],
           trace := trace (initial_state ?d) @ [Popped ?d, Requested ?d, Slept]\<rparr>"
    by (elim conjE)
  note l = mp[OF imp h]
  have pp: "page_parsed site 0 ?b ?sp"
    by (simp add: page_parsed_def site_defs py_lower_def lower_char_def startswith_def
        html_content_cleaned_def re_sub_empty_def)
  have h2: "urls_to_visit (initial_state ?b) = ?b # []
        \<and> \<not> is_excluded ?b
        \<and> can_fetch ?rp USER_AGENT ?b = Some True
        \<and> page_parsed site (length (requested (trace (initial_state ?b)))) ?b ?sp"
    using pp cf[of ?b]
    by (simp add: initial_state_def rstrip_slash_def Let_def is_excluded_def EXCLUDED_EXTENSIONS_def
        endswith_def py_lower_def lower_char_def)
  from th2 have imp2: "urls_to_visit (initial_state ?b) = ?b # []
        \<and> \<not> is_excluded ?b
        \<and> can_fetch ?rp USER_AGENT ?b = Some True
        \<and> page_parsed site (length (requested (trace (initial_state ?b)))) ?b ?sp
      \<longrightarrow> (fst (try_body site ''site.test'' ?b
                  ((initial_state ?b)\<lparr>urls_to_visit := [],
                     trace := trace (initial_state ?b) @ [Popped ?b]\<rparr>)) = Completed
           \<or> fst (try_body site ''site.test'' ?b
                  ((initial_state ?b)\<lparr>urls_to_visit := [],
                     trace := trace (initial_state ?b) @ [Popped ?b]\<rparr>)) = Raised OtherException)
          \<and> raised (loop_body site ?rp ''site.test'' (initial_state ?b)) = raised (initial_state ?b)
          \<and> map_of (scraped_pages (loop_body site ?rp ''site.test'' (initial_state ?b))) ?b
              = Some (title_text (find_title ?sp))
          \<and> length (scraped_pages (loop_body site ?rp ''site.test'' (initial_state ?b))) =
               (if ?b \<in> set (map fst (scraped_pages (initial_state ?b)))
                then length (scraped_pages (initial_state ?b))
                else Suc (length (scraped_pages (initial_state ?b))))
          \<and> last (trace (loop_body site ?rp ''site.test'' (initial_state ?b))) = Slept"
    by (elim conjE)
  note c2 = mp[OF imp2 h2]
  from c2 have k1: "raised (loop_body site ?rp ''site.test'' (initial_state ?b)) = None"
    by (simp add: initial_state_def Let_def)
  from c2 have k2: "map_of (scraped_pages (loop_body site ?rp ''site.test'' (initial_state ?b))) ?b
      = Some ''X''"
    by (simp add: title_text_def py_strip_def WHITESPACE_def strip_prefixes.simps startswith_def)
  from c2 have k3: "last (trace (loop_body site ?rp ''site.test'' (initial_state ?b))) = Slept"
    by (elim conjE)
  from c2 have "length (scraped_pages (loop_body site ?rp ''site.test'' (initial_state ?b))) =
               (if ?b \<in> set (map fst (scraped_pages (initial_state ?b)))
                then length (scraped_pages (initial_state ?b))
                else Suc (length (scraped_pages (initial_state ?b))))"
    by (elim conjE)
  then have k4: "length (scraped_pages (loop_body site ?rp ''site.test'' (initial_state ?b))) = 1"
    by (simp add: initial_state_def Let_def)
  show ?thesis
    apply (intro conjI)
            apply (rule site_urlparse_down)
           apply (rule ff)
          apply (rule ex)
         apply (rule l)
        apply (rule pp)
       apply (rule k1)
      apply (rule k2)
     apply (rule k4)
    apply (rule k3)
    done
qed

section \<open>The visit order on the synthetic site\<close>

text \<open>
  With any budget of at least 4 the pages of the synthetic site are visited in the order
  A, B, C, D.
\<close>

lemma site_visit_order:
  assumes "4 \<le> max_pages"
  shows "map_option (map_sum id (\<lambda>t. popped (trace t)))
           (crawl_run site ''http://site.test/'' max_pages)
    = Some (Inr [''http://site.test'', ''http://site.test/b'',
                 ''http://site.test/c'', ''http://site.test/d''])"
proof -
  have lt: "0 < max_pages" "1 < max_pages" "2 < max_pages" "3 < max_pages" using assms by simp_all
  show ?thesis by (simp add: crawl_loop.simps site_defs crawl_defs lt)
qed

end
